theory Spec2Isabelle
  imports Complex_Main "HOL-Library.Word"
begin

section \<open>SecretShare: the Worker API and the client crypto helper\<close>

text \<open>
  The development embeds two source files: \<^verbatim>\<open>frontend/crypto.js\<close> (class
  \<^verbatim>\<open>SecretShareCrypto\<close>) and \<^verbatim>\<open>src/worker.ts\<close> (the request handlers
  of the Cloudflare Worker). Functions keep the names they have in the source.

  Conventions of the embedding:
  \<^item> a \<^verbatim>\<open>Uint8Array\<close> is a list of 8-bit words; the plaintext that
    \<^verbatim>\<open>encrypt\<close> takes and \<^verbatim>\<open>decrypt\<close> returns is a list of 16-bit code
    units; identifiers, tokens and base64 texts are \<^typ>\<open>string\<close>s, whose characters are
    the code units below 256;
  \<^item> a JavaScript number is \<^verbatim>\<open>NaN\<close>, an infinity or a finite value, and a finite
    value is a \<^typ>\<open>rat\<close>: every finite double is a rational, and the handlers only
    compare such numbers, add 1 and multiply by constants; \<^verbatim>\<open>Date.now()\<close> is an
    \<^typ>\<open>int\<close> (milliseconds); the result of \<^verbatim>\<open>parseInt\<close> is an integer or
    \<^verbatim>\<open>NaN\<close>, the value \<open>None\<close> of an option;
  \<^item> a field of a JSON body holds whatever JSON value the body has there, whatever the
    TypeScript interface declares;
  \<^item> what the platform supplies (SHA-256, HMAC, AES-GCM, the number a string converts
    to, random bytes, the clock, whether a KV operation throws) is a parameter of the
    function that uses it; so is the encoder of the Worker, which is applied to
    identifiers and tokens, while the two text codecs of \<^verbatim>\<open>crypto.js\<close>, which are
    applied to the plaintext, are written out;
  \<^item> a thrown exception is a value: \<open>Inl\<close> of a sum, or \<open>None\<close>.
\<close>

subsection \<open>Bytes, binary strings and the platform's base64\<close>

type_synonym byte = "8 word"

text \<open>\<^verbatim>\<open>String.fromCharCode(b)\<close> for a byte, and \<^verbatim>\<open>s.charCodeAt(i)\<close> stored into a
  \<^verbatim>\<open>Uint8Array\<close>.\<close>

definition fromCharCode :: "byte \<Rightarrow> char" where
  "fromCharCode b = char_of (unat b)"

definition charCodeAt :: "char \<Rightarrow> byte" where
  "charCodeAt c = of_nat (of_char c)"

definition b64chars :: string where
  "b64chars = ''ABCDEFGHIJKLMNOPQRSTUVWXYZabcdefghijklmnopqrstuvwxyz0123456789+/''"

definition b64char :: "nat \<Rightarrow> char" where
  "b64char n = b64chars ! (n mod 64)"

fun index_of :: "'a list \<Rightarrow> 'a \<Rightarrow> nat option" where
  "index_of [] c = None"
| "index_of (x # xs) c = (if x = c then Some 0 else map_option Suc (index_of xs c))"

definition b64index :: "char \<Rightarrow> nat option" where
  "b64index c = index_of b64chars c"

text \<open>The 6-bit groups of a binary string: three bytes give four groups, a rest of two
  bytes gives three and a rest of one byte gives two (the missing low bits are zero).\<close>

fun sextets :: "string \<Rightarrow> nat list" where
  "sextets (a # b # c # rest) =
     [of_char a div 4,
      (of_char a mod 4) * 16 + of_char b div 16,
      (of_char b mod 16) * 4 + of_char c div 64,
      of_char c mod 64] @ sextets rest"
| "sextets [a, b] =
     [of_char a div 4,
      (of_char a mod 4) * 16 + of_char b div 16,
      (of_char b mod 16) * 4]"
| "sextets [a] = [of_char a div 4, (of_char a mod 4) * 16]"
| "sextets [] = []"

definition padlen :: "string \<Rightarrow> nat" where
  "padlen s = (3 - length s mod 3) mod 3"

text \<open>\<^verbatim>\<open>btoa\<close>: standard base64 with \<open>=\<close> padding. Every \<^typ>\<open>char\<close> is below 256,
  so the \<^verbatim>\<open>InvalidCharacterError\<close> of \<^verbatim>\<open>btoa\<close> cannot arise.\<close>

definition btoa :: "string \<Rightarrow> string" where
  "btoa s = map b64char (sextets s) @ replicate (padlen s) CHR ''=''"

definition ascii_whitespace :: "char \<Rightarrow> bool" where
  "ascii_whitespace c \<longleftrightarrow> c \<in> {CHR 0x09, CHR 0x0A, CHR 0x0C, CHR 0x0D, CHR 0x20}"

definition remove_padding :: "string \<Rightarrow> string" where
  "remove_padding d =
     (if 2 \<le> length d \<and> last d = CHR ''='' \<and> last (butlast d) = CHR ''=''
        then butlast (butlast d)
      else if d \<noteq> [] \<and> last d = CHR ''='' then butlast d
      else d)"

fun decode_sextets :: "nat list \<Rightarrow> string" where
  "decode_sextets (s0 # s1 # s2 # s3 # rest) =
     [char_of (s0 * 4 + s1 div 16),
      char_of ((s1 mod 16) * 16 + s2 div 4),
      char_of ((s2 mod 4) * 64 + s3)] @ decode_sextets rest"
| "decode_sextets [s0, s1, s2] =
     [char_of (s0 * 4 + s1 div 16), char_of ((s1 mod 16) * 16 + s2 div 4)]"
| "decode_sextets [s0, s1] = [char_of (s0 * 4 + s1 div 16)]"
| "decode_sextets [s0] = []"
| "decode_sextets [] = []"

text \<open>\<^verbatim>\<open>atob\<close>, the forgiving base64 decoder of the platform: ASCII whitespace is
  dropped; when the length is a multiple of four, one or two trailing \<open>=\<close> are removed;
  a length of 1 modulo 4 or a character outside the alphabet throws (\<open>None\<close>).\<close>

definition atob :: "string \<Rightarrow> string option" where
  "atob data =
     (let d1 = filter (\<lambda>c. \<not> ascii_whitespace c) data;
          d2 = (if length d1 mod 4 = 0 then remove_padding d1 else d1)
      in if length d2 mod 4 = 1 then None
         else map_option decode_sextets (those (map b64index d2)))"

text \<open>\<^verbatim>\<open>s.replace(/a/g, b)\<close> for single characters, and \<^verbatim>\<open>s.replace(/a+$/, '')\<close>.\<close>

definition replaceAll :: "char \<Rightarrow> char \<Rightarrow> string \<Rightarrow> string" where
  "replaceAll a b s = map (\<lambda>c. if c = a then b else c) s"

definition stripTrailing :: "char \<Rightarrow> string \<Rightarrow> string" where
  "stripTrailing a s = rev (dropWhile (\<lambda>c. c = a) (rev s))"

subsection \<open>frontend/crypto.js\<close>

datatype error = DecryptionFailed | KVError | TypeError

definition arrayBufferToBase64 :: "byte list \<Rightarrow> string" where
  "arrayBufferToBase64 bytes =
     (let binary = foldl (\<lambda>binary b. binary @ [fromCharCode b]) [] bytes
      in stripTrailing CHR ''=''
           (replaceAll CHR ''/'' CHR ''_'' (replaceAll CHR ''+'' CHR ''-'' (btoa binary))))"

definition base64ToArrayBuffer :: "string \<Rightarrow> byte list option" where
  "base64ToArrayBuffer base64url =
     (let base64 = replaceAll CHR ''_'' CHR ''/'' (replaceAll CHR ''-'' CHR ''+'' base64url);
          padding = 4 - length base64 mod 4;
          base64 = (if padding \<noteq> 4 then base64 @ replicate padding CHR ''='' else base64)
      in case atob base64 of
           None \<Rightarrow> None
         | Some binary \<Rightarrow> Some (map charCodeAt binary))"

text \<open>\<^verbatim>\<open>new TextEncoder().encode(s)\<close>: the string is read as scalar values (a
  surrogate pair is one supplementary code point, a surrogate without its partner becomes
  U+FFFD) and each is written in UTF-8.\<close>

type_synonym code_unit = "16 word"

definition is_high_surrogate :: "code_unit \<Rightarrow> bool" where
  "is_high_surrogate u \<longleftrightarrow> 0xD800 \<le> unat u \<and> unat u \<le> 0xDBFF"

definition is_low_surrogate :: "code_unit \<Rightarrow> bool" where
  "is_low_surrogate u \<longleftrightarrow> 0xDC00 \<le> unat u \<and> unat u \<le> 0xDFFF"

fun scalar_values :: "code_unit list \<Rightarrow> nat list" where
  "scalar_values [] = []"
| "scalar_values [u] =
     [if is_high_surrogate u \<or> is_low_surrogate u then 0xFFFD else unat u]"
| "scalar_values (u # v # rest) =
     (if is_high_surrogate u \<and> is_low_surrogate v then
        (0x10000 + (unat u - 0xD800) * 0x400 + (unat v - 0xDC00)) # scalar_values rest
      else if is_high_surrogate u \<or> is_low_surrogate u then
        0xFFFD # scalar_values (v # rest)
      else unat u # scalar_values (v # rest))"

definition utf8_bytes :: "nat \<Rightarrow> byte list" where
  "utf8_bytes cp =
     (if cp < 0x80 then [of_nat cp]
      else if cp < 0x800 then [of_nat (0xC0 + cp div 0x40), of_nat (0x80 + cp mod 0x40)]
      else if cp < 0x10000 then
        [of_nat (0xE0 + cp div 0x1000), of_nat (0x80 + cp div 0x40 mod 0x40),
         of_nat (0x80 + cp mod 0x40)]
      else
        [of_nat (0xF0 + cp div 0x40000), of_nat (0x80 + cp div 0x1000 mod 0x40),
         of_nat (0x80 + cp div 0x40 mod 0x40), of_nat (0x80 + cp mod 0x40)])"

definition TextEncoder_encode :: "code_unit list \<Rightarrow> byte list" where
  "TextEncoder_encode input = concat (map utf8_bytes (scalar_values input))"

text \<open>\<^verbatim>\<open>new TextDecoder().decode(bytes)\<close>: the UTF-8 decoder of the Encoding
  Standard, which never throws in this mode. Its state is the code point under
  construction, the continuation bytes seen and needed, and the bounds of the next
  continuation byte. A byte that cannot start or continue a sequence gives U+FFFD (a byte
  that cannot continue is then read again as a first byte). With the default options a
  U+FEFF at the start of the text is not part of the result.\<close>

type_synonym utf8_state = "nat \<times> nat \<times> nat \<times> nat \<times> nat"

definition utf8_start :: utf8_state where
  "utf8_start = (0, 0, 0, 0x80, 0xBF)"

definition utf8_lead :: "nat \<Rightarrow> nat list \<times> utf8_state" where
  "utf8_lead b =
     (if b \<le> 0x7F then ([b], utf8_start)
      else if 0xC2 \<le> b \<and> b \<le> 0xDF then ([], (b mod 0x20, 0, 1, 0x80, 0xBF))
      else if 0xE0 \<le> b \<and> b \<le> 0xEF then
        ([], (b mod 0x10, 0, 2, if b = 0xE0 then 0xA0 else 0x80,
              if b = 0xED then 0x9F else 0xBF))
      else if 0xF0 \<le> b \<and> b \<le> 0xF4 then
        ([], (b mod 8, 0, 3, if b = 0xF0 then 0x90 else 0x80,
              if b = 0xF4 then 0x8F else 0xBF))
      else ([0xFFFD], utf8_start))"

fun utf8_decode :: "utf8_state \<Rightarrow> nat list \<Rightarrow> nat list" where
  "utf8_decode (cp, seen, needed, lower, upper) [] = (if needed \<noteq> 0 then [0xFFFD] else [])"
| "utf8_decode (cp, seen, needed, lower, upper) (b # bs) =
     (if needed = 0 then
        (case utf8_lead b of (out, st) \<Rightarrow> out @ utf8_decode st bs)
      else if b < lower \<or> upper < b then
        (case utf8_lead b of (out, st) \<Rightarrow> 0xFFFD # out @ utf8_decode st bs)
      else if seen + 1 \<noteq> needed then
        utf8_decode (cp * 0x40 + b mod 0x40, seen + 1, needed, 0x80, 0xBF) bs
      else (cp * 0x40 + b mod 0x40) # utf8_decode utf8_start bs)"

definition utf16_units :: "nat \<Rightarrow> code_unit list" where
  "utf16_units cp =
     (if cp < 0x10000 then [of_nat cp]
      else [of_nat (0xD800 + (cp - 0x10000) div 0x400),
            of_nat (0xDC00 + (cp - 0x10000) mod 0x400)])"

definition strip_bom :: "nat list \<Rightarrow> nat list" where
  "strip_bom cps = (case cps of [] \<Rightarrow> [] | c # rest \<Rightarrow> if c = 0xFEFF then rest else cps)"

definition TextDecoder_decode :: "byte list \<Rightarrow> code_unit list" where
  "TextDecoder_decode bytes =
     concat (map utf16_units (strip_bom (utf8_decode utf8_start (map unat bytes))))"

text \<open>The Web Crypto operations that \<^verbatim>\<open>encrypt\<close> and \<^verbatim>\<open>decrypt\<close> call,
  for keys of type \<open>'k\<close>: AES-GCM with a 128-bit tag under a key and an IV (decryption
  throws, \<open>None\<close>, when the tag does not verify).\<close>

record 'k webcrypto =
  gcm_encrypt :: "'k \<Rightarrow> byte list \<Rightarrow> byte list \<Rightarrow> byte list"
  gcm_decrypt :: "'k \<Rightarrow> byte list \<Rightarrow> byte list \<Rightarrow> byte list option"

definition ivLength :: nat where
  "ivLength = 12"

text \<open>\<^verbatim>\<open>encrypt(plaintext, key)\<close>; \<open>iv\<close> is what
  \<^verbatim>\<open>crypto.getRandomValues(new Uint8Array(this.ivLength))\<close> returned.\<close>

definition encrypt :: "'k webcrypto \<Rightarrow> byte list \<Rightarrow> code_unit list \<Rightarrow> 'k \<Rightarrow> string" where
  "encrypt P iv plaintext key =
     (let encodedText = TextEncoder_encode plaintext;
          encrypted = gcm_encrypt P key iv encodedText;
          combined = iv @ encrypted
      in arrayBufferToBase64 combined)"

definition decrypt :: "'k webcrypto \<Rightarrow> string \<Rightarrow> 'k \<Rightarrow> error + code_unit list" where
  "decrypt P encryptedData key =
     (case base64ToArrayBuffer encryptedData of
        None \<Rightarrow> Inl DecryptionFailed
      | Some combined \<Rightarrow>
          (let iv = take ivLength combined;
               ciphertext = drop ivLength combined
           in case gcm_decrypt P key iv ciphertext of
                None \<Rightarrow> Inl DecryptionFailed
              | Some decrypted \<Rightarrow> Inr (TextDecoder_decode decrypted)))"

subsection \<open>src/worker.ts: identifiers and anti-forgery tokens\<close>

text \<open>A JavaScript number.\<close>

datatype number = NaN | Finite rat | PosInf | NegInf

text \<open>What the Worker takes from its runtime: \<^verbatim>\<open>TextEncoder.encode\<close> on the
  texts it hashes and signs, \<^verbatim>\<open>crypto.subtle.digest('SHA-256', _)\<close>, HMAC-SHA-256
  signing under raw key bytes, and the number that a string converts to when it is
  compared with a number (the conversion of the language, with its rounding to a
  double).\<close>

record runtime =
  utf8 :: "string \<Rightarrow> byte list"
  digest :: "byte list \<Rightarrow> byte list"
  sign :: "byte list \<Rightarrow> byte list \<Rightarrow> byte list"
  to_number :: "string \<Rightarrow> number"

definition base64urlEncode :: "byte list \<Rightarrow> string" where
  "base64urlEncode buffer =
     (let base64 = btoa (map fromCharCode buffer)
      in removeAll CHR ''=''
           (replaceAll CHR ''/'' CHR ''_'' (replaceAll CHR ''+'' CHR ''-'' base64)))"

text \<open>\<^verbatim>\<open>generateSecretId\<close>; \<open>randomBytes\<close> is what
  \<^verbatim>\<open>crypto.getRandomValues(new Uint8Array(32))\<close> returned.\<close>

definition generateSecretId :: "byte list \<Rightarrow> string" where
  "generateSecretId randomBytes = base64urlEncode randomBytes"

definition hashSecretId :: "runtime \<Rightarrow> string \<Rightarrow> string" where
  "hashSecretId W secretId =
     (let data = utf8 W secretId;
          hashBuffer = digest W data
      in base64urlEncode hashBuffer)"

definition hex_chars :: string where
  "hex_chars = ''0123456789abcdef''"

definition digit_char :: "nat \<Rightarrow> char" where
  "digit_char n = hex_chars ! n"

text \<open>\<^verbatim>\<open>b.toString(16)\<close> for a byte, \<^verbatim>\<open>padStart\<close>, and the decimal
  \<^verbatim>\<open>toString()\<close> of an integer-valued number.\<close>

definition toString16 :: "byte \<Rightarrow> string" where
  "toString16 b =
     (let n = unat b
      in if n < 16 then [digit_char n] else [digit_char (n div 16), digit_char (n mod 16)])"

definition padStart :: "nat \<Rightarrow> char \<Rightarrow> string \<Rightarrow> string" where
  "padStart n c s = replicate (n - length s) c @ s"

definition signatureHex :: "byte list \<Rightarrow> string" where
  "signatureHex signature = concat (map (\<lambda>b. padStart 2 CHR ''0'' (toString16 b)) signature)"

fun digits :: "nat \<Rightarrow> string" where
  "digits n =
     (if n < 10 then [digit_char n] else digits (n div 10) @ [digit_char (n mod 10)])"

declare digits.simps [simp del]

definition number_toString :: "int \<Rightarrow> string" where
  "number_toString i = (if i < 0 then CHR ''-'' # digits (nat (- i)) else digits (nat i))"

text \<open>\<^verbatim>\<open>parseInt(string)\<close> without a radix, after ECMAScript: leading white space
  is skipped, a sign is read, a \<^verbatim>\<open>0x\<close> prefix selects radix 16, and the longest
  prefix of digits is the value; no digit at all gives \<^verbatim>\<open>NaN\<close>. The result is the
  exact integer. (The double nearest to it decides the age test of
  \<^verbatim>\<open>validateCSRFToken\<close> the same way for every time value of the clock, whose
  magnitude is below \<open>2^53\<close>: rounding is monotone and keeps integers of that size.)\<close>

definition is_ws :: "char \<Rightarrow> bool" where
  "is_ws c \<longleftrightarrow>
     c \<in> {CHR 0x09, CHR 0x0A, CHR 0x0B, CHR 0x0C, CHR 0x0D, CHR 0x20, CHR 0xA0}"

definition digit_value :: "char \<Rightarrow> nat option" where
  "digit_value c =
     (let n = of_char c :: nat in
      if 48 \<le> n \<and> n \<le> 57 then Some (n - 48)
      else if 97 \<le> n \<and> n \<le> 122 then Some (n - 87)
      else if 65 \<le> n \<and> n \<le> 90 then Some (n - 55)
      else None)"

definition radix_digit :: "nat \<Rightarrow> char \<Rightarrow> bool" where
  "radix_digit R c = (case digit_value c of None \<Rightarrow> False | Some d \<Rightarrow> d < R)"

definition radix_value :: "nat \<Rightarrow> string \<Rightarrow> nat" where
  "radix_value R Z =
     foldl (\<lambda>acc c. acc * R + (case digit_value c of None \<Rightarrow> 0 | Some d \<Rightarrow> d)) 0 Z"

definition parseInt :: "string \<Rightarrow> int option" where
  "parseInt inputString =
     (let S = dropWhile is_ws inputString;
          sign = (if S \<noteq> [] \<and> hd S = CHR ''-'' then - 1 else 1 :: int);
          S = (if S \<noteq> [] \<and> (hd S = CHR ''+'' \<or> hd S = CHR ''-'') then tl S else S);
          hex = (take 2 S = ''0x'' \<or> take 2 S = ''0X'');
          R = (if hex then 16 else 10);
          S = (if hex then drop 2 S else S);
          Z = takeWhile (radix_digit R) S
      in if Z = [] then None else Some (sign * int (radix_value R Z)))"

text \<open>\<^verbatim>\<open>token.split('.')\<close>.\<close>

fun split_on :: "char \<Rightarrow> string \<Rightarrow> string list" where
  "split_on sep [] = [[]]"
| "split_on sep (c # cs) =
     (if c = sep then [] # split_on sep cs
      else (case split_on sep cs of [] \<Rightarrow> [[c]] | p # ps \<Rightarrow> (c # p) # ps))"

text \<open>Comparisons of a number that may be \<^verbatim>\<open>NaN\<close>: both are false on
  \<^verbatim>\<open>NaN\<close>.\<close>

definition num_gt :: "int option \<Rightarrow> int \<Rightarrow> bool" where
  "num_gt x y = (case x of None \<Rightarrow> False | Some v \<Rightarrow> v > y)"

definition num_lt :: "int option \<Rightarrow> int \<Rightarrow> bool" where
  "num_lt x y = (case x of None \<Rightarrow> False | Some v \<Rightarrow> v < y)"

text \<open>\<^verbatim>\<open>generateCSRFToken(secret)\<close> and \<^verbatim>\<open>validateCSRFToken(token, secret)\<close>;
  \<open>now\<close> is the reading of \<^verbatim>\<open>Date.now()\<close>.\<close>

definition generateCSRFToken :: "runtime \<Rightarrow> int \<Rightarrow> string \<Rightarrow> string" where
  "generateCSRFToken W now secret =
     (let timestamp = number_toString now;
          data = utf8 W timestamp;
          key = utf8 W secret;
          signature = sign W key data
      in timestamp @ ''.'' @ signatureHex signature)"

definition validateCSRFToken :: "runtime \<Rightarrow> int \<Rightarrow> string \<Rightarrow> string \<Rightarrow> bool" where
  "validateCSRFToken W now token secret =
     (let parts = split_on CHR ''.'' token in
      if length parts \<noteq> 2 then False
      else
        let timestamp = parts ! 0;
            providedSignature = parts ! 1
        in if timestamp = [] \<or> providedSignature = [] then False
           else
             let tokenAge = map_option (\<lambda>t. now - t) (parseInt timestamp)
             in if num_gt tokenAge (30 * 60 * 1000) \<or> num_lt tokenAge 0 then False
                else
                  let data = utf8 W timestamp;
                      key = utf8 W secret;
                      signature = sign W key data
                  in signatureHex signature = providedSignature)"

subsection \<open>src/worker.ts: the store and the handlers\<close>

text \<open>A JSON value. An object lists its properties in the order in which
  \<^verbatim>\<open>JSON.stringify\<close> writes them.\<close>

datatype json =
    JNull
  | JBool bool
  | JNum number
  | JStr string
  | JArr "json list"
  | JObj "(string \<times> json) list"

text \<open>\<^verbatim>\<open>a < b\<close>, \<^verbatim>\<open>a > b\<close> and \<^verbatim>\<open>a >= b\<close> on numbers: all three are false
  when an operand is \<^verbatim>\<open>NaN\<close>.\<close>

fun js_lt :: "number \<Rightarrow> number \<Rightarrow> bool" where
  "js_lt (Finite a) (Finite b) = (a < b)"
| "js_lt (Finite a) PosInf = True"
| "js_lt NegInf (Finite b) = True"
| "js_lt NegInf PosInf = True"
| "js_lt _ _ = False"

definition js_gt :: "number \<Rightarrow> number \<Rightarrow> bool" where
  "js_gt a b = js_lt b a"

fun js_ge :: "number \<Rightarrow> number \<Rightarrow> bool" where
  "js_ge NaN b = False"
| "js_ge a NaN = False"
| "js_ge a b = (if js_lt a b then False else True)"

text \<open>\<^verbatim>\<open>x * c\<close> for a positive finite constant \<open>c\<close>, and \<^verbatim>\<open>t + x\<close> for a
  finite \<open>t\<close>.\<close>

fun js_times :: "number \<Rightarrow> rat \<Rightarrow> number" where
  "js_times (Finite r) c = Finite (r * c)"
| "js_times x c = x"

fun js_plus :: "rat \<Rightarrow> number \<Rightarrow> number" where
  "js_plus t (Finite r) = Finite (t + r)"
| "js_plus t x = x"

text \<open>\<^verbatim>\<open>!x\<close> is true on these values.\<close>

fun falsy :: "json \<Rightarrow> bool" where
  "falsy JNull = True"
| "falsy (JBool b) = (if b then False else True)"
| "falsy (JNum n) = (n = NaN \<or> n = Finite 0)"
| "falsy (JStr s) = (s = [])"
| "falsy (JArr xs) = False"
| "falsy (JObj kvs) = False"

text \<open>The conversion of a JSON value to a number, as the comparison with a number
  performs it. An object is converted through its \<^verbatim>\<open>toString\<close>: the inherited one
  gives a text that is not a number, and an own property of that name (never a function
  in a parsed body) leaves no way to convert, so that the comparison throws. An array is
  converted through the texts of its elements, joined by commas.\<close>

fun toString_throws :: "json \<Rightarrow> bool" where
  "toString_throws (JArr xs) = (\<exists>x \<in> set xs. toString_throws x)"
| "toString_throws (JObj kvs) = (''toString'' \<in> fst ` set kvs)"
| "toString_throws v = False"

fun joined_number :: "(string \<Rightarrow> number) \<Rightarrow> json \<Rightarrow> number" where
  "joined_number f JNull = Finite 0"
| "joined_number f (JBool b) = NaN"
| "joined_number f (JNum n) = n"
| "joined_number f (JStr s) = f s"
| "joined_number f (JArr []) = Finite 0"
| "joined_number f (JArr [x]) = joined_number f x"
| "joined_number f (JArr (x # y # zs)) = NaN"
| "joined_number f (JObj kvs) = NaN"

definition ToNumber :: "runtime \<Rightarrow> json \<Rightarrow> error + number" where
  "ToNumber W v =
     (case v of
        JNull \<Rightarrow> Inr (Finite 0)
      | JBool b \<Rightarrow> Inr (Finite (if b then 1 else 0))
      | JNum n \<Rightarrow> Inr n
      | JStr s \<Rightarrow> Inr (to_number W s)
      | JArr xs \<Rightarrow>
          if toString_throws v then Inl TypeError else Inr (joined_number (to_number W) v)
      | JObj kvs \<Rightarrow> if toString_throws v then Inl TypeError else Inr NaN)"

text \<open>\<^verbatim>\<open>JSON.parse(JSON.stringify(v))\<close>: a number that is not finite is written as
  \<^verbatim>\<open>null\<close>.\<close>

fun stringify_parse :: "json \<Rightarrow> json" where
  "stringify_parse (JNum n) = (case n of Finite r \<Rightarrow> JNum n | _ \<Rightarrow> JNull)"
| "stringify_parse (JArr xs) = JArr (map stringify_parse xs)"
| "stringify_parse (JObj kvs) = JObj (map (\<lambda>(k, v). (k, stringify_parse v)) kvs)"
| "stringify_parse v = v"

text \<open>The stored record. \<^verbatim>\<open>encryptedData\<close> and \<^verbatim>\<open>maxViews\<close> are copied from
  the request body as they are; \<^verbatim>\<open>viewCount\<close> and \<^verbatim>\<open>createdAt\<close> are numbers
  that the handlers compute.\<close>

record SecretData =
  encryptedData :: json
  maxViews :: json
  viewCount :: rat
  createdAt :: int

definition stringify_parse_record :: "SecretData \<Rightarrow> SecretData" where
  "stringify_parse_record d =
     d\<lparr>encryptedData := stringify_parse (encryptedData d),
       maxViews := stringify_parse (maxViews d)\<rparr>"

text \<open>A value of the KV namespace is a text. It is represented by what
  \<^verbatim>\<open>JSON.parse\<close> makes of it: the record that \<^verbatim>\<open>JSON.stringify\<close> wrote, read
  back, or a non-empty text that does not parse. An entry also keeps the
  \<^verbatim>\<open>expirationTtl\<close> (seconds) its \<^verbatim>\<open>put\<close> was given, if any.\<close>

datatype stored = Json SecretData | NotJson

record kv_entry =
  text_of :: stored
  expirationTtl :: "number option"

type_synonym KVNamespace = "string \<rightharpoonup> kv_entry"

text \<open>The JSON bodies, which are objects. A field that may be absent is an option; the
  fields of \<^verbatim>\<open>CreateSecretRequest\<close> carry the prefix \<open>c_\<close> and those of
  \<^verbatim>\<open>RetrieveSecretRequest\<close> the prefix \<open>r_\<close>.\<close>

record CreateSecretRequest =
  c_encryptedData :: "json option"
  c_maxViews :: "json option"
  c_expirationHours :: "json option"
  c_csrfToken :: "json option"

record RetrieveSecretRequest =
  r_secretId :: "string option"
  r_csrfToken :: "string option"

text \<open>The object a response is made of, before \<^verbatim>\<open>JSON.stringify\<close>.\<close>

datatype body =
    Error string
  | Created string number json
  | Retrieved json rat json bool int

datatype response = Response (status: nat) (body_of: body)

text \<open>What one handler call observes of its environment: the readings of
  \<^verbatim>\<open>Date.now()\<close> in the order the handler takes them, the random bytes of
  \<^verbatim>\<open>generateSecretId\<close>, and for each KV operation whether it throws (an operation
  that throws leaves the namespace as it was).\<close>

record env =
  now_validate :: int
  now_createdAt :: int
  now_expiresAt :: int
  randomBytes :: "byte list"
  get_throws :: bool
  put_throws :: bool
  delete_throws :: bool

text \<open>\<^verbatim>\<open>handleCreateSecret\<close>. The request is \<open>None\<close> when
  \<^verbatim>\<open>request.json()\<close> throws; \<open>secret\<close> is \<^verbatim>\<open>env.CSRF_SECRET\<close>. The result is
  the response, or the exception that leaves the handler, and the namespace after the call.
  Each range test converts its field to a number; \<^verbatim>\<open>validateCSRFToken\<close> calls
  \<^verbatim>\<open>token.split\<close>, which only a string has.\<close>

definition handleCreateSecret ::
  "runtime \<Rightarrow> env \<Rightarrow> string \<Rightarrow> CreateSecretRequest option \<Rightarrow> KVNamespace
     \<Rightarrow> (error + response) \<times> KVNamespace" where
  "handleCreateSecret W E secret request kv =
     (case request of
        None \<Rightarrow> (Inr (Response 400 (Error ''Invalid JSON'')), kv)
      | Some data \<Rightarrow>
          (case (c_encryptedData data, c_csrfToken data, c_maxViews data,
                 c_expirationHours data) of
             (Some encrypted, Some csrfToken, Some maxV, Some expirationHours) \<Rightarrow>
               if falsy encrypted \<or> falsy csrfToken then
                 (Inr (Response 400 (Error ''Missing required fields'')), kv)
               else
                 (case ToNumber W maxV of
                    Inl e \<Rightarrow> (Inl e, kv)
                  | Inr mv \<Rightarrow>
                      if js_lt mv (Finite 1) \<or> js_gt mv (Finite 100) then
                        (Inr (Response 400 (Error ''Max views must be between 1 and 100'')),
                         kv)
                      else
                        (case ToNumber W expirationHours of
                           Inl e \<Rightarrow> (Inl e, kv)
                         | Inr eh \<Rightarrow>
                             if js_lt eh (Finite 1) \<or> js_gt eh (Finite 8760) then
                               (Inr (Response 400
                                  (Error ''Expiration hours must be between 1 and 8760'')),
                                kv)
                             else
                               (case csrfToken of
                                  JStr token \<Rightarrow>
                                    if validateCSRFToken W (now_validate E) token secret then
                                      let secretId = generateSecretId (randomBytes E);
                                          hashedSecretId = hashSecretId W secretId;
                                          secretData =
                                            \<lparr>encryptedData = encrypted, maxViews = maxV,
                                             viewCount = 0, createdAt = now_createdAt E\<rparr>;
                                          expirationSeconds = js_times eh 3600
                                      in if put_throws E then
                                           (Inr (Response 500
                                              (Error ''Failed to store secret'')), kv)
                                         else
                                           (Inr (Response 200
                                              (Created secretId
                                                 (js_plus (of_int (now_expiresAt E))
                                                    (js_times expirationSeconds 1000))
                                                 maxV)),
                                            kv(hashedSecretId \<mapsto>
                                                 \<lparr>text_of =
                                                    Json (stringify_parse_record secretData),
                                                  expirationTtl = Some expirationSeconds\<rparr>))
                                    else
                                      (Inr (Response 403 (Error ''Invalid CSRF token'')), kv)
                                | _ \<Rightarrow> (Inl TypeError, kv))))
           | _ \<Rightarrow> (Inr (Response 400 (Error ''Missing required fields'')), kv)))"

text \<open>\<^verbatim>\<open>handleRetrieveSecret\<close> is cut at its \<^verbatim>\<open>await env.SECRETS_KV.get\<close>.
  \<open>retrieve_lookup\<close> is the part up to and including the read: it either answers at
  once or hands on the hashed id and what the read returned. \<open>retrieve_complete\<close>
  is the rest, from \<^verbatim>\<open>if (!storedData)\<close> on; it works on the value that was read
  and writes to the namespace as it is then. The \<^verbatim>\<open>delete\<close> of the exhausted branch
  is not inside a \<^verbatim>\<open>try\<close>: when it throws, the handler's promise rejects
  (\<open>Inl KVError\<close>). \<open>limit\<close> is the number that \<^verbatim>\<open>secretData.maxViews\<close>
  converts to in the comparisons with \<^verbatim>\<open>secretData.viewCount\<close>.\<close>

datatype lookup = Replied response | Fetched string "kv_entry option"

definition retrieve_lookup ::
  "runtime \<Rightarrow> env \<Rightarrow> string \<Rightarrow> RetrieveSecretRequest option \<Rightarrow> KVNamespace \<Rightarrow> lookup" where
  "retrieve_lookup W E secret request kv =
     (case request of
        None \<Rightarrow> Replied (Response 400 (Error ''Invalid JSON''))
      | Some data \<Rightarrow>
          (case (r_secretId data, r_csrfToken data) of
             (Some secretId, Some csrfToken) \<Rightarrow>
               if secretId = [] \<or> csrfToken = [] then
                 Replied (Response 400 (Error ''Missing secretId or csrfToken''))
               else if \<not> validateCSRFToken W (now_validate E) csrfToken secret then
                 Replied (Response 403 (Error ''Invalid CSRF token''))
               else
                 let hashedSecretId = hashSecretId W secretId
                 in if get_throws E then
                      Replied (Response 500 (Error ''Failed to retrieve secret''))
                    else Fetched hashedSecretId (kv hashedSecretId)
           | _ \<Rightarrow> Replied (Response 400 (Error ''Missing secretId or csrfToken''))))"

definition retrieve_complete ::
  "runtime \<Rightarrow> env \<Rightarrow> string \<Rightarrow> kv_entry option \<Rightarrow> KVNamespace
     \<Rightarrow> (error + response) \<times> KVNamespace" where
  "retrieve_complete W E hashedSecretId storedData kv =
     (case storedData of
        None \<Rightarrow> (Inr (Response 404 (Error ''Secret not found or expired'')), kv)
      | Some entry \<Rightarrow>
          (case text_of entry of
             NotJson \<Rightarrow> (Inr (Response 500 (Error ''Invalid secret data'')), kv)
           | Json secretData \<Rightarrow>
               (case ToNumber W (maxViews secretData) of
                  Inl e \<Rightarrow> (Inl e, kv)
                | Inr limit \<Rightarrow>
                    if js_ge (Finite (viewCount secretData)) limit then
                      (if delete_throws E then (Inl KVError, kv)
                       else
                         (Inr (Response 410 (Error ''Secret has exceeded maximum views'')),
                          kv(hashedSecretId := None)))
                    else
                      let secretData = secretData\<lparr>viewCount := viewCount secretData + 1\<rparr>;
                          clientEncryptedData = encryptedData secretData;
                          kv' =
                            (if js_ge (Finite (viewCount secretData)) limit then
                               (if delete_throws E then kv else kv(hashedSecretId := None))
                             else
                               (if put_throws E then kv
                                else kv(hashedSecretId \<mapsto>
                                          \<lparr>text_of = Json (stringify_parse_record secretData),
                                           expirationTtl = None\<rparr>)))
                      in (Inr (Response 200
                                 (Retrieved clientEncryptedData (viewCount secretData)
                                    (maxViews secretData)
                                    (js_ge (Finite (viewCount secretData)) limit)
                                    (createdAt secretData))),
                          kv'))))"

definition handleRetrieveSecret ::
  "runtime \<Rightarrow> env \<Rightarrow> string \<Rightarrow> RetrieveSecretRequest option \<Rightarrow> KVNamespace
     \<Rightarrow> (error + response) \<times> KVNamespace" where
  "handleRetrieveSecret W E secret request kv =
     (case retrieve_lookup W E secret request kv of
        Replied r \<Rightarrow> (Inr r, kv)
      | Fetched hashedSecretId storedData \<Rightarrow>
          retrieve_complete W E hashedSecretId storedData kv)"

subsection \<open>Sequences of calls\<close>

text \<open>A call is the environment it observes and the body it was sent.\<close>

type_synonym call = "env \<times> RetrieveSecretRequest option"

text \<open>Calls handled one after the other, each on the namespace the previous one left.\<close>

fun retrieve_all ::
  "runtime \<Rightarrow> string \<Rightarrow> call list \<Rightarrow> KVNamespace
     \<Rightarrow> (error + response) list \<times> KVNamespace" where
  "retrieve_all W secret [] kv = ([], kv)"
| "retrieve_all W secret ((E, request) # calls) kv =
     (let (r, kv') = handleRetrieveSecret W E secret request kv;
          (rs, kv'') = retrieve_all W secret calls kv'
      in (r # rs, kv''))"

fun returns_envelope :: "error + response \<Rightarrow> bool" where
  "returns_envelope (Inr (Response s (Retrieved e vc mv l c))) = True"
| "returns_envelope _ = False"

definition envelopes :: "(error + response) list \<Rightarrow> nat" where
  "envelopes rs = length (filter returns_envelope rs)"

text \<open>Calls in flight at the same time. Each call is in one of three stages: not yet at
  its KV read, between its read and its write (holding what it read), or done. A schedule
  names, step by step, the call that takes its next step; the only steps that touch the
  namespace are the read and the write of a call, and nothing orders the steps of
  different calls.\<close>

datatype stage = Waiting | Holding string "kv_entry option" | Finished "error + response"

definition advance ::
  "runtime \<Rightarrow> string \<Rightarrow> call \<Rightarrow> stage \<Rightarrow> KVNamespace \<Rightarrow> stage \<times> KVNamespace" where
  "advance W secret c st kv =
     (case st of
        Waiting \<Rightarrow>
          (case retrieve_lookup W (fst c) secret (snd c) kv of
             Replied r \<Rightarrow> (Finished (Inr r), kv)
           | Fetched hashedSecretId storedData \<Rightarrow> (Holding hashedSecretId storedData, kv))
      | Holding hashedSecretId storedData \<Rightarrow>
          (let (r, kv') = retrieve_complete W (fst c) hashedSecretId storedData kv
           in (Finished r, kv'))
      | Finished r \<Rightarrow> (Finished r, kv))"

fun run_schedule ::
  "runtime \<Rightarrow> string \<Rightarrow> call list \<Rightarrow> nat list \<Rightarrow> stage list \<times> KVNamespace
     \<Rightarrow> stage list \<times> KVNamespace" where
  "run_schedule W secret calls [] state = state"
| "run_schedule W secret calls (i # sched) (stages, kv) =
     (if i < length calls \<and> i < length stages then
        (let (st, kv') = advance W secret (calls ! i) (stages ! i) kv
         in run_schedule W secret calls sched (stages[i := st], kv'))
      else run_schedule W secret calls sched (stages, kv))"

fun stage_envelope :: "stage \<Rightarrow> bool" where
  "stage_envelope (Finished r) = returns_envelope r"
| "stage_envelope _ = False"

definition concurrent_envelopes ::
  "runtime \<Rightarrow> string \<Rightarrow> call list \<Rightarrow> nat list \<Rightarrow> KVNamespace \<Rightarrow> nat" where
  "concurrent_envelopes W secret calls sched kv =
     length (filter stage_envelope
       (fst (run_schedule W secret calls sched (replicate (length calls) Waiting, kv))))"

subsection \<open>Notions used to state the properties\<close>

text \<open>A call is against an external id when its body names that id; its writes succeed
  when neither \<^verbatim>\<open>put\<close> nor \<^verbatim>\<open>delete\<close> throws in it; it reaches the store when
  it gets past the checks of the body, the token check and the read (none of which looks
  at the namespace).\<close>

definition against :: "string \<Rightarrow> call \<Rightarrow> bool" where
  "against secretId c =
     (case snd c of None \<Rightarrow> False | Some data \<Rightarrow> r_secretId data = Some secretId)"

definition writes_succeed :: "call \<Rightarrow> bool" where
  "writes_succeed c \<longleftrightarrow> \<not> put_throws (fst c) \<and> \<not> delete_throws (fst c)"

definition reaches_store :: "runtime \<Rightarrow> string \<Rightarrow> call \<Rightarrow> bool" where
  "reaches_store W secret c =
     (case retrieve_lookup W (fst c) secret (snd c) Map.empty of
        Replied r \<Rightarrow> False
      | Fetched hashedSecretId storedData \<Rightarrow> True)"

text \<open>The two refusals of \<^verbatim>\<open>handleRetrieveSecret\<close>: not found (404) and
  exhausted (410).\<close>

fun refused :: "error + response \<Rightarrow> bool" where
  "refused (Inr (Response s (Error msg))) = (s = 404 \<or> s = 410)"
| "refused _ = False"

text \<open>The views a key still has in a namespace: for a stored record, the number of
  increments of \<^verbatim>\<open>viewCount\<close> until it reaches \<^verbatim>\<open>maxViews\<close>.\<close>

definition views_left :: "KVNamespace \<Rightarrow> string \<Rightarrow> nat" where
  "views_left kv h =
     (case kv h of
        None \<Rightarrow> 0
      | Some entry \<Rightarrow>
          (case text_of entry of
             NotJson \<Rightarrow> 0
           | Json d \<Rightarrow>
               (case maxViews d of
                  JNum (Finite m) \<Rightarrow> nat \<lceil>m - viewCount d\<rceil>
                | _ \<Rightarrow> 0)))"

text \<open>What is stored under a key, if anything, is a record whose \<^verbatim>\<open>maxViews\<close> is
  a finite number.\<close>

definition numeric :: "KVNamespace \<Rightarrow> string \<Rightarrow> bool" where
  "numeric kv h =
     (case kv h of
        None \<Rightarrow> True
      | Some entry \<Rightarrow>
          (case text_of entry of
             NotJson \<Rightarrow> False
           | Json d \<Rightarrow> (case maxViews d of JNum (Finite m) \<Rightarrow> True | _ \<Rightarrow> False)))"

text \<open>The \<^verbatim>\<open>viewCount\<close> field of a success response, if the result is one.\<close>

fun response_viewCount :: "error + response \<Rightarrow> rat option" where
  "response_viewCount (Inr (Response s (Retrieved e vc mv l c))) = Some vc"
| "response_viewCount _ = None"

text \<open>A schedule in which the two steps of a call are never separated: the calls of
  \<open>order\<close>, each running its read and its write back to back.\<close>

definition serial :: "nat list \<Rightarrow> nat list" where
  "serial order = concat (map (\<lambda>i. [i, i]) order)"

text \<open>No call is between its read and its write.\<close>

definition settled :: "stage list \<Rightarrow> bool" where
  "settled stages \<longleftrightarrow> (\<forall>st \<in> set stages. st = Waiting \<or> (\<exists>r. st = Finished r))"

text \<open>The schedule in which every call does its read before any call does its write.\<close>

definition reads_first :: "nat \<Rightarrow> nat list" where
  "reads_first n = [0..<n] @ [0..<n]"

text \<open>A scalar value is a code point that is not a surrogate. A string is well formed
  when every surrogate in it is part of a pair, a high one followed by a low one.\<close>

definition scalar :: "nat \<Rightarrow> bool" where
  "scalar cp \<longleftrightarrow> cp < 0x110000 \<and> \<not> (0xD800 \<le> cp \<and> cp \<le> 0xDFFF)"

fun well_formed :: "code_unit list \<Rightarrow> bool" where
  "well_formed [] = True"
| "well_formed [u] = (\<not> is_high_surrogate u \<and> \<not> is_low_surrogate u)"
| "well_formed (u # v # rest) =
     (if is_high_surrogate u then is_low_surrogate v \<and> well_formed rest
      else \<not> is_low_surrogate u \<and> well_formed (v # rest))"

subsection \<open>A stand-in platform for running the model\<close>

text \<open>Small functions of the platform's types, used only where a handler is run on a
  concrete input. The theorems about the code hold for every platform.\<close>

text \<open>The stand-in for the conversion of a string to a number knows the empty text and
  the texts made of decimal digits; every other text is \<^verbatim>\<open>NaN\<close> to it.\<close>

definition demo_to_number :: "string \<Rightarrow> number" where
  "demo_to_number s =
     (if s = [] then Finite 0
      else if list_all (radix_digit 10) s then Finite (of_nat (radix_value 10 s))
      else NaN)"

definition demo_runtime :: runtime where
  "demo_runtime =
     \<lparr>utf8 = map charCodeAt, digest = (\<lambda>bs. bs), sign = (\<lambda>key data. [42]),
      to_number = demo_to_number\<rparr>"



text \<open>The plaintext \<^verbatim>\<open>"hello"\<close>, and the same after a U+FEFF.\<close>

definition hello :: "code_unit list" where
  "hello = [0x68, 0x65, 0x6C, 0x6C, 0x6F]"


definition demo_secret :: string where
  "demo_secret = ''k''"

definition demo_env :: env where
  "demo_env =
     \<lparr>now_validate = 5, now_createdAt = 6, now_expiresAt = 7,
      randomBytes = replicate 32 7,
      get_throws = False, put_throws = False, delete_throws = False\<rparr>"

definition demo_record :: SecretData where
  "demo_record =
     \<lparr>encryptedData = JStr ''ct'', maxViews = JNum (Finite 1), viewCount = 0,
      createdAt = 3\<rparr>"

definition demo_kv :: KVNamespace where
  "demo_kv =
     [hashSecretId demo_runtime ''id'' \<mapsto>
        \<lparr>text_of = Json demo_record, expirationTtl = Some (Finite 3600)\<rparr>]"

definition demo_request :: RetrieveSecretRequest where
  "demo_request = \<lparr>r_secretId = Some ''id'', r_csrfToken = Some ''5.2a''\<rparr>"

definition demo_call :: call where
  "demo_call = (demo_env, Some demo_request)"

definition demo_create :: CreateSecretRequest where
  "demo_create =
     \<lparr>c_encryptedData = Some (JStr ''ct''), c_maxViews = Some (JNum (Finite (5 / 2))),
      c_expirationHours = Some (JNum (Finite (3 / 2))), c_csrfToken = Some (JStr ''5.2a'')\<rparr>"

text \<open>The body \<^verbatim>\<open>{"encryptedData": "ct", "maxViews": {}, "expirationHours": 24,
  "csrfToken": "5.2a"}\<close>, the same with \<^verbatim>\<open>"maxViews": "abc"\<close>, and one whose
  \<^verbatim>\<open>maxViews\<close> is 101.\<close>

definition demo_create_object :: CreateSecretRequest where
  "demo_create_object =
     \<lparr>c_encryptedData = Some (JStr ''ct''), c_maxViews = Some (JObj []),
      c_expirationHours = Some (JNum (Finite 24)), c_csrfToken = Some (JStr ''5.2a'')\<rparr>"

definition demo_create_text :: CreateSecretRequest where
  "demo_create_text =
     \<lparr>c_encryptedData = Some (JStr ''ct''), c_maxViews = Some (JStr ''abc''),
      c_expirationHours = Some (JNum (Finite 24)), c_csrfToken = Some (JStr ''5.2a'')\<rparr>"

definition demo_create_bad :: CreateSecretRequest where
  "demo_create_bad =
     \<lparr>c_encryptedData = Some (JStr ''ct''), c_maxViews = Some (JNum (Finite 101)),
      c_expirationHours = Some (JNum (Finite 24)), c_csrfToken = Some (JStr ''5.2a'')\<rparr>"


section \<open>Base64 of the key export: encoding and decoding\<close>

lemma binary_map: "foldl (\<lambda>binary b. binary @ [f b]) acc bytes = acc @ map f bytes"
  by (induction bytes arbitrary: acc) simp_all

lemma charCodeAt_fromCharCode: "charCodeAt (fromCharCode b) = b"
proof -
  have "unat b < 256" using unsigned_less [of b] by simp
  then show ?thesis by (simp add: charCodeAt_def fromCharCode_def of_char_of)
qed

lemma fromCharCode_charCodeAt: "fromCharCode (charCodeAt c) = c"
proof -
  have "of_char c < (256::nat)" by simp
  then have "unat (of_nat (of_char c) :: byte) = of_char c"
    by (simp add: unat_of_nat)
  then show ?thesis by (simp add: charCodeAt_def fromCharCode_def)
qed

lemma index_of_nth: "distinct xs \<Longrightarrow> n < length xs \<Longrightarrow> index_of xs (xs ! n) = Some n"
proof (induction xs arbitrary: n)
  case Nil
  then show ?case by simp
next
  case (Cons x xs)
  show ?case
  proof (cases n)
    case 0
    then show ?thesis by simp
  next
    case (Suc m)
    with Cons.prems have "xs ! m \<in> set xs" "x \<notin> set xs" by auto
    then have "x \<noteq> xs ! m" by blast
    with Suc Cons show ?thesis by simp
  qed
qed

lemma distinct_b64chars: "distinct b64chars"
  by (simp add: b64chars_def)

lemma length_b64chars: "length b64chars = 64"
  by (simp add: b64chars_def)

lemma b64index_b64char: "n < 64 \<Longrightarrow> b64index (b64char n) = Some n"
  by (simp add: b64index_def b64char_def index_of_nth distinct_b64chars length_b64chars)

lemma b64char_mem: "n < 64 \<Longrightarrow> b64char n \<in> set b64chars"
  by (simp add: b64char_def length_b64chars)

lemma sextets_lt: "\<forall>n \<in> set (sextets s). n < 64"
proof (induction s rule: sextets.induct)
  case (1 a b c rest)
  have "of_char a < (256::nat)" "of_char b < (256::nat)" "of_char c < (256::nat)"
    by simp_all
  then have "of_char a div 4 < (64::nat)" 
    "(of_char a mod 4) * 16 + of_char b div 16 < (64::nat)"
    "(of_char b mod 16) * 4 + of_char c div 64 < (64::nat)" by arith+
  with 1 show ?case by simp
next
  case (2 a b)
  have "of_char a < (256::nat)" "of_char b < (256::nat)" by simp_all
  then have "of_char a div 4 < (64::nat)" 
    "(of_char a mod 4) * 16 + of_char b div 16 < (64::nat)"
    "(of_char b mod 16) * 4 < (64::nat)" by arith+
  then show ?case by simp
next
  case (3 a)
  have "of_char a < (256::nat)" by simp
  then have "of_char a div 4 < (64::nat)" "(of_char a mod 4) * 16 < (64::nat)" by arith+
  then show ?case by simp
qed simp

lemma hi_lo_div: "z < k \<Longrightarrow> (m * k + z) div k = (m::nat)"
  by simp

lemma hi_lo_mod: "z < k \<Longrightarrow> (m * k + z) mod k = (z::nat)"
  by simp

lemma sextet_join1:
  assumes "y < (256::nat)"
  shows "x div 4 * 4 + (x mod 4 * 16 + y div 16) div 16 = (x::nat)"
proof -
  from assms have "y div 16 < 16" by simp
  then have "(x mod 4 * 16 + y div 16) div 16 = x mod 4" by (rule hi_lo_div)
  then show ?thesis by simp
qed

lemma sextet_join2:
  assumes "y < (256::nat)" and "c < (256::nat)"
  shows "(x mod 4 * 16 + y div 16) mod 16 * 16 + (y mod 16 * 4 + c div 64) div 4 = y"
proof -
  from assms have a: "y div 16 < 16" and b: "c div 64 < 4" by simp_all
  from a have "(x mod 4 * 16 + y div 16) mod 16 = y div 16" by (rule hi_lo_mod)
  moreover from b have "(y mod 16 * 4 + c div 64) div 4 = y mod 16" by (rule hi_lo_div)
  ultimately show ?thesis by simp
qed

lemma sextet_join3:
  assumes "c < (256::nat)"
  shows "(y mod 16 * 4 + c div 64) mod 4 * 64 + c mod 64 = c"
proof -
  from assms have "c div 64 < 4" by simp
  then have "(y mod 16 * 4 + c div 64) mod 4 = c div 64" by (rule hi_lo_mod)
  then show ?thesis by simp
qed

lemma sextet_join2_last:
  assumes "y < (256::nat)"
  shows "(x mod 4 * 16 + y div 16) mod 16 * 16 + (y mod 16 * 4) div 4 = y"
  using sextet_join2 [OF assms, of 0 x] by simp

lemma sextet_join1_last: "x div 4 * 4 + (x mod 4 * 16) div 16 = (x::nat)"
  using sextet_join1 [of 0 x] by simp

lemma of_char_lt: "of_char c < (256::nat)"
  by simp

lemma decode_sextets_sextets: "decode_sextets (sextets s) = s"
proof (induction s rule: sextets.induct)
  case (1 a b c rest)
  then show ?case
    by (simp only: sextets.simps decode_sextets.simps append.simps char_of_char
        sextet_join1 [OF of_char_lt] sextet_join2 [OF of_char_lt of_char_lt]
        sextet_join3 [OF of_char_lt])
next
  case (2 a b)
  show ?case
    by (simp only: sextets.simps decode_sextets.simps char_of_char
        sextet_join1 [OF of_char_lt] sextet_join2_last [OF of_char_lt])
next
  case (3 a)
  show ?case
    by (simp only: sextets.simps decode_sextets.simps char_of_char sextet_join1_last)
qed simp


lemma b64chars_no_eq: "CHR ''='' \<notin> set b64chars"
  by (simp add: b64chars_def)

lemma b64chars_no_minus: "CHR ''-'' \<notin> set b64chars"
  by (simp add: b64chars_def)

lemma b64chars_no_underscore: "CHR ''_'' \<notin> set b64chars"
  by (simp add: b64chars_def)

lemma b64chars_no_ws: "\<forall>c \<in> set b64chars. \<not> ascii_whitespace c"
  by (simp add: b64chars_def ascii_whitespace_def)

lemma b64chars_plain:
  "c \<in> set b64chars \<Longrightarrow>
     c \<noteq> CHR ''='' \<and> c \<noteq> CHR ''-'' \<and> c \<noteq> CHR ''_'' \<and> \<not> ascii_whitespace c"
  using b64chars_no_eq b64chars_no_minus b64chars_no_underscore b64chars_no_ws by blast

lemma those_b64index:
  "\<forall>n \<in> set ss. n < 64 \<Longrightarrow> those (map b64index (map b64char ss)) = Some ss"
  by (induction ss) (simp_all add: b64index_b64char)

lemma body_in_alphabet: "set (map b64char (sextets s)) \<subseteq> set b64chars"
  using sextets_lt [of s] by (auto simp: b64char_mem)

lemma mod3_cases: "(n::nat) mod 3 = 0 \<or> n mod 3 = 1 \<or> n mod 3 = 2"
  by presburger

lemma length_sextets_mod4:
  "length (sextets s) mod 4 = (if length s mod 3 = 0 then 0 else Suc (length s mod 3))"
proof (induction s rule: sextets.induct)
  case (1 a b c rest)
  have "length (a # b # c # rest) = length rest + 3" by simp
  then have m3: "length (a # b # c # rest) mod 3 = length rest mod 3"
    by (simp only: mod_add_self2)
  have "length (sextets (a # b # c # rest)) = length (sextets rest) + 4" by simp
  then have m4: "length (sextets (a # b # c # rest)) mod 4 = length (sextets rest) mod 4"
    by (simp only: mod_add_self2)
  show ?case unfolding m3 m4 by (rule 1)
qed simp_all

lemma padlen_le2: "padlen s \<le> 2"
proof -
  have "(3 - length s mod 3) mod 3 < 3" by (rule mod_less_divisor) simp
  then show ?thesis by (simp add: padlen_def)
qed

lemma repad:
  "(if 4 - length (sextets s) mod 4 \<noteq> 4
      then xs @ replicate (4 - length (sextets s) mod 4) c else xs)
   = xs @ replicate (padlen s) c"
  using mod3_cases [of "length s"]
  by (auto simp: length_sextets_mod4 padlen_def)

lemma length_btoa_mod4: "length (btoa s) mod 4 = 0"
proof -
  have "length (btoa s) = length (sextets s) + padlen s"
    by (simp add: btoa_def)
  moreover have "(length (sextets s) mod 4 + padlen s) mod 4 = 0"
    using mod3_cases [of "length s"]
    by (auto simp: length_sextets_mod4 padlen_def)
  ultimately show ?thesis by (simp add: mod_add_left_eq)
qed

lemma replaceAll_append: "replaceAll a b (xs @ ys) = replaceAll a b xs @ replaceAll a b ys"
  by (simp add: replaceAll_def)

lemma replaceAll_replicate:
  "c \<noteq> a \<Longrightarrow> replaceAll a b (replicate k c) = replicate k c"
  by (simp add: replaceAll_def)

lemma url_unurl:
  "CHR ''-'' \<notin> set xs \<Longrightarrow> CHR ''_'' \<notin> set xs \<Longrightarrow>
   replaceAll CHR ''_'' CHR ''/'' (replaceAll CHR ''-'' CHR ''+''
     (replaceAll CHR ''/'' CHR ''_'' (replaceAll CHR ''+'' CHR ''-'' xs))) = xs"
  by (induction xs) (auto simp: replaceAll_def)

lemma url_no_eq:
  "CHR ''='' \<notin> set xs \<Longrightarrow>
   CHR ''='' \<notin> set (replaceAll CHR ''/'' CHR ''_'' (replaceAll CHR ''+'' CHR ''-'' xs))"
  by (induction xs) (auto simp: replaceAll_def)

lemma dropWhile_notin: "a \<notin> set ys \<Longrightarrow> dropWhile (\<lambda>c. c = a) ys = ys"
  by (cases ys) auto

lemma stripTrailing_pad:
  assumes "a \<notin> set xs"
  shows "stripTrailing a (xs @ replicate k a) = xs"
proof -
  have "dropWhile (\<lambda>c. c = a) (replicate k a @ rev xs) = dropWhile (\<lambda>c. c = a) (rev xs)"
    by (induction k) simp_all
  also have "\<dots> = rev xs"
    using assms by (simp add: dropWhile_notin)
  finally show ?thesis by (simp add: stripTrailing_def)
qed

lemma remove_padding_pad:
  assumes "CHR ''='' \<notin> set xs" and "k \<le> 2"
  shows "remove_padding (xs @ replicate k CHR ''='') = xs"
proof -
  have nl: "xs = [] \<or> last xs \<noteq> CHR ''=''"
    using assms(1) last_in_set by metis
  from assms(2) consider "k = 0" | "k = 1" | "k = 2" by arith
  then show ?thesis
  proof cases
    case 1
    then show ?thesis using nl by (auto simp: remove_padding_def)
  next
    case 2
    then have "xs @ replicate k CHR ''='' = xs @ [CHR ''='']" by simp
    then show ?thesis using nl by (auto simp: remove_padding_def)
  next
    case 3
    then have "xs @ replicate k CHR ''='' = (xs @ [CHR ''='']) @ [CHR ''='']"
      by (simp add: numeral_2_eq_2)
    then show ?thesis by (simp add: remove_padding_def del: append_assoc)
  qed
qed

lemma atob_btoa: "atob (btoa s) = Some s"
proof -
  define body where "body = map b64char (sextets s)"
  have sub: "set body \<subseteq> set b64chars"
    unfolding body_def by (rule body_in_alphabet)
  have noeq: "CHR ''='' \<notin> set body"
    using sub b64chars_no_eq by (rule contra_subsetD)
  have nows: "\<forall>c \<in> set body. \<not> ascii_whitespace c"
    using sub b64chars_no_ws by (meson subsetD)
  have ws: "\<not> ascii_whitespace CHR ''=''" by (simp add: ascii_whitespace_def)
  have bt: "btoa s = body @ replicate (padlen s) CHR ''=''"
    by (simp add: btoa_def body_def)
  have "\<forall>c \<in> set (btoa s). \<not> ascii_whitespace c"
    unfolding bt using nows ws by (simp add: ball_Un)
  then have d1: "filter (\<lambda>c. \<not> ascii_whitespace c) (btoa s) = btoa s"
    by (simp only: filter_id_conv)
  have d2: "remove_padding (btoa s) = body"
    unfolding bt by (rule remove_padding_pad [OF noeq padlen_le2])
  have ne1: "length body mod 4 \<noteq> 1"
    by (simp add: body_def length_sextets_mod4)
  have th: "those (map b64index body) = Some (sextets s)"
    unfolding body_def by (rule those_b64index [OF sextets_lt])
  have "atob (btoa s) = map_option decode_sextets (those (map b64index body))"
    unfolding atob_def Let_def d1 using ne1 by (simp add: length_btoa_mod4 d2 del: map_map)
  then show ?thesis by (simp only: th option.map decode_sextets_sextets)
qed

lemma arrayBufferToBase64_body:
  "arrayBufferToBase64 bytes =
     replaceAll CHR ''/'' CHR ''_'' (replaceAll CHR ''+'' CHR ''-''
       (map b64char (sextets (map fromCharCode bytes))))"
proof -
  let ?body = "map b64char (sextets (map fromCharCode bytes))"
  have "CHR ''='' \<notin> set ?body"
    using body_in_alphabet [of "map fromCharCode bytes"] b64chars_no_eq by blast
  from stripTrailing_pad [OF url_no_eq [OF this]] show ?thesis
    by (simp add: arrayBufferToBase64_def binary_map btoa_def replaceAll_append
        replaceAll_replicate)
qed

lemma base64_roundtrip: "base64ToArrayBuffer (arrayBufferToBase64 bytes) = Some bytes"
proof -
  let ?s = "map fromCharCode bytes"
  let ?body = "map b64char (sextets ?s)"
  have plain: "CHR ''-'' \<notin> set ?body" "CHR ''_'' \<notin> set ?body"
    using body_in_alphabet [of ?s] b64chars_plain by blast+
  have "base64ToArrayBuffer (arrayBufferToBase64 bytes) =
      (case atob (btoa ?s) of None \<Rightarrow> None | Some binary \<Rightarrow> Some (map charCodeAt binary))"
    unfolding base64ToArrayBuffer_def Let_def arrayBufferToBase64_body url_unurl [OF plain]
      btoa_def
    by (simp only: length_map repad)
  then show ?thesis
    by (simp add: atob_btoa charCodeAt_fromCharCode map_idI)
qed

lemma replaceAll_removes: "a \<noteq> b \<Longrightarrow> a \<notin> set (replaceAll a b xs)"
  by (auto simp: replaceAll_def)

lemma replaceAll_keeps_absent: "c \<notin> set xs \<Longrightarrow> c \<noteq> b \<Longrightarrow> c \<notin> set (replaceAll a b xs)"
  by (auto simp: replaceAll_def)

text \<open>
  C8. The text form of an exported key round-trips: for every byte sequence,
  \<^verbatim>\<open>base64ToArrayBuffer\<close> applied to the URL-safe text that
  \<^verbatim>\<open>arrayBufferToBase64\<close> produces returns exactly the bytes, although the encoder
  removes the \<open>=\<close> padding and writes \<open>-\<close> and \<open>_\<close> for \<open>+\<close> and \<open>/\<close> (so that
  none of \<open>=\<close>, \<open>+\<close>, \<open>/\<close> is left in the text).
\<close>

theorem export_import_roundtrip:
  "base64ToArrayBuffer (arrayBufferToBase64 b) = Some b
   \<and> CHR ''='' \<notin> set (arrayBufferToBase64 b)
   \<and> CHR ''+'' \<notin> set (arrayBufferToBase64 b)
   \<and> CHR ''/'' \<notin> set (arrayBufferToBase64 b)"
proof -
  let ?body = "map b64char (sextets (map fromCharCode b))"
  let ?minus = "replaceAll CHR ''+'' CHR ''-'' ?body"
  have "CHR ''='' \<notin> set ?body"
    using body_in_alphabet [of "map fromCharCode b"] b64chars_no_eq by blast
  then have no_eq: "CHR ''='' \<notin> set (arrayBufferToBase64 b)"
    unfolding arrayBufferToBase64_body by (rule url_no_eq)
  have "CHR ''+'' \<notin> set ?minus" by (rule replaceAll_removes) simp
  then have no_plus: "CHR ''+'' \<notin> set (arrayBufferToBase64 b)"
    unfolding arrayBufferToBase64_body by (rule replaceAll_keeps_absent) simp
  have no_slash: "CHR ''/'' \<notin> set (arrayBufferToBase64 b)"
    unfolding arrayBufferToBase64_body by (rule replaceAll_removes) simp
  from base64_roundtrip [of b] no_eq no_plus no_slash show ?thesis by blast
qed

section \<open>Encryption round trip\<close>

text \<open>
  What \<^verbatim>\<open>decrypt\<close> makes of the output of \<^verbatim>\<open>encrypt\<close>, for every plaintext, key
  and 12-byte nonce, when AES-GCM decrypts what it encrypted: the text that
  \<^verbatim>\<open>encrypt\<close> returns decodes to the nonce followed by the AEAD output,
  \<^verbatim>\<open>decrypt\<close> takes the first 12 bytes off as the nonce, and the result is the
  plaintext sent through the two text codecs.
\<close>

lemma decrypt_encrypt_codecs:
  assumes "length iv = ivLength"
    and "gcm_decrypt P key iv (gcm_encrypt P key iv (TextEncoder_encode plaintext))
           = Some (TextEncoder_encode plaintext)"
  shows "decrypt P (encrypt P iv plaintext key) key
           = Inr (TextDecoder_decode (TextEncoder_encode plaintext))
       \<and> base64ToArrayBuffer (encrypt P iv plaintext key)
           = Some (iv @ gcm_encrypt P key iv (TextEncoder_encode plaintext))
       \<and> take ivLength (iv @ gcm_encrypt P key iv (TextEncoder_encode plaintext)) = iv"
  using assms by (simp add: decrypt_def encrypt_def base64_roundtrip)







text \<open>
  A surrogate without its partner does not come back either: the encoder writes U+FFFD
  for it.
\<close>

lemma lone_surrogate_replaced: "TextDecoder_decode (TextEncoder_encode [0xD800]) = [0xFFFD]"
proof -
  have "TextEncoder_encode [0xD800] = [0xEF, 0xBF, 0xBD]"
    by (simp add: TextEncoder_encode_def is_high_surrogate_def utf8_bytes_def)
  moreover have "utf8_decode utf8_start (map unat [0xEF, 0xBF, 0xBD :: byte]) = [0xFFFD]"
    by (simp add: utf8_start_def utf8_lead_def)
  ultimately show ?thesis
    by (simp add: TextDecoder_decode_def strip_bom_def utf16_units_def)
qed

subsection \<open>The plaintexts that do come back\<close>

lemma unat_byte: "n < 256 \<Longrightarrow> unat (of_nat n :: byte) = n"
  by (simp add: unat_of_nat)

lemma offset_mod:
  fixes a c m :: nat
  assumes "a < m" and "c mod m = 0"
  shows "(c + a) mod m = a"
proof -
  have "(c + a) mod m = (c mod m + a) mod m" by (simp add: mod_add_left_eq)
  with assms show ?thesis by simp
qed

lemma decode_continue:
  "needed \<noteq> 0 \<Longrightarrow> lower \<le> 0x80 + b \<Longrightarrow> 0x80 + b \<le> upper \<Longrightarrow> b < 0x40 \<Longrightarrow>
   seen' = seen + 1 \<Longrightarrow> seen' \<noteq> needed \<Longrightarrow> cp' = cp * 0x40 + b \<Longrightarrow>
   utf8_decode (cp, seen, needed, lower, upper) ((0x80 + b) # bs)
   = utf8_decode (cp', seen', needed, 0x80, 0xBF) bs"
  using offset_mod [of b "0x40" "0x80"] by simp

lemma decode_last:
  "needed \<noteq> 0 \<Longrightarrow> lower \<le> 0x80 + b \<Longrightarrow> 0x80 + b \<le> upper \<Longrightarrow> b < 0x40 \<Longrightarrow>
   seen + 1 = needed \<Longrightarrow> cp' = cp * 0x40 + b \<Longrightarrow>
   utf8_decode (cp, seen, needed, lower, upper) ((0x80 + b) # bs)
   = cp' # utf8_decode utf8_start bs"
  using offset_mod [of b "0x40" "0x80"] by simp

lemma decode_lead:
  "utf8_decode utf8_start (b # bs) = (case utf8_lead b of (out, st) \<Rightarrow> out @ utf8_decode st bs)"
  by (simp add: utf8_start_def)

lemma decode1:
  assumes "cp < 0x80"
  shows "utf8_decode utf8_start (map unat (utf8_bytes cp) @ bs) = cp # utf8_decode utf8_start bs"
  using assms by (simp add: utf8_bytes_def unat_byte decode_lead utf8_lead_def)

lemma decode2:
  assumes "0x80 \<le> cp" "cp < 0x800"
  shows "utf8_decode utf8_start (map unat (utf8_bytes cp) @ bs) = cp # utf8_decode utf8_start bs"
proof -
  define a where "a = cp div 0x40"
  define b where "b = cp mod 0x40"
  have cp: "cp = a * 0x40 + b" and b: "b < 0x40" by (simp_all add: a_def b_def)
  from assms cp b have a: "2 \<le> a" "a < 0x20" by linarith+
  have "utf8_bytes cp = [of_nat (0xC0 + a), of_nat (0x80 + b)]"
    using assms unfolding utf8_bytes_def a_def b_def by (simp del: of_nat_add)
  moreover have "unat (of_nat (0xC0 + a) :: byte) = 0xC0 + a"
    "unat (of_nat (0x80 + b) :: byte) = 0x80 + b"
    using a b by (simp_all only: unat_byte)
  ultimately have bytes: "map unat (utf8_bytes cp) = [0xC0 + a, 0x80 + b]"
    by (simp only: list.map)
  have "(0xC0 + a) mod 0x20 = a" using a by (intro offset_mod) simp_all
  then have lead: "utf8_lead (0xC0 + a) = ([], (a, 0, 1, 0x80, 0xBF))"
    using a by (simp add: utf8_lead_def)
  have "utf8_decode utf8_start ([0xC0 + a, 0x80 + b] @ bs)
      = utf8_decode (a, 0, 1, 0x80, 0xBF) ((0x80 + b) # bs)"
    by (simp add: decode_lead lead del: utf8_decode.simps)
  also have "\<dots> = cp # utf8_decode utf8_start bs"
    by (rule decode_last) (use b cp in simp_all)
  finally show ?thesis unfolding bytes .
qed


lemma decode3:
  assumes "0x800 \<le> cp" "cp < 0x10000" "\<not> (0xD800 \<le> cp \<and> cp \<le> 0xDFFF)"
  shows "utf8_decode utf8_start (map unat (utf8_bytes cp) @ bs) = cp # utf8_decode utf8_start bs"
proof -
  define x where "x = cp div 0x40"
  define a where "a = x div 0x40"
  define b where "b = x mod 0x40"
  define c where "c = cp mod 0x40"
  have cp: "cp = x * 0x40 + c" and c: "c < 0x40" by (simp_all add: x_def c_def)
  have x: "x = a * 0x40 + b" and b: "b < 0x40" by (simp_all add: a_def b_def)
  have a_eq: "cp div 0x1000 = a"
    unfolding a_def x_def by (simp add: div_mult2_eq [symmetric])
  from assms cp c x b have a: "a < 0x10" by linarith
  from assms cp c x b have lo: "a = 0 \<Longrightarrow> 0x20 \<le> b" by linarith
  from assms cp c x b have hi: "a = 13 \<Longrightarrow> b < 0x20" by linarith
  have "utf8_bytes cp = [of_nat (0xE0 + a), of_nat (0x80 + b), of_nat (0x80 + c)]"
    using assms unfolding utf8_bytes_def a_eq [symmetric] b_def c_def x_def
    by (simp del: of_nat_add)
  moreover have "unat (of_nat (0xE0 + a) :: byte) = 0xE0 + a"
    "unat (of_nat (0x80 + b) :: byte) = 0x80 + b"
    "unat (of_nat (0x80 + c) :: byte) = 0x80 + c"
    using a b c by (simp_all only: unat_byte)
  ultimately have bytes: "map unat (utf8_bytes cp) = [0xE0 + a, 0x80 + b, 0x80 + c]"
    by (simp only: list.map)
  define lower :: nat where "lower = (if a = 0 then 0xA0 else 0x80)"
  define upper :: nat where "upper = (if a = 13 then 0x9F else 0xBF)"
  have "(0xE0 + a) mod 0x10 = a" using a by (intro offset_mod) simp_all
  then have lead: "utf8_lead (0xE0 + a) = ([], (a, 0, 2, lower, upper))"
    using a by (simp add: utf8_lead_def lower_def upper_def)
  have range: "lower \<le> 0x80 + b" "0x80 + b \<le> upper"
    using lo hi b by (auto simp: lower_def upper_def)
  have "utf8_decode utf8_start ([0xE0 + a, 0x80 + b, 0x80 + c] @ bs)
      = utf8_decode (a, 0, 2, lower, upper) ((0x80 + b) # (0x80 + c) # bs)"
    by (simp add: decode_lead lead del: utf8_decode.simps)
  also have "\<dots> = utf8_decode (x, 1, 2, 0x80, 0xBF) ((0x80 + c) # bs)"
    by (rule decode_continue) (use range b x in simp_all)
  also have "\<dots> = cp # utf8_decode utf8_start bs"
    by (rule decode_last) (use c cp in simp_all)
  finally show ?thesis unfolding bytes .
qed

lemma decode4:
  assumes "0x10000 \<le> cp" "cp < 0x110000"
  shows "utf8_decode utf8_start (map unat (utf8_bytes cp) @ bs) = cp # utf8_decode utf8_start bs"
proof -
  define x where "x = cp div 0x40"
  define y where "y = x div 0x40"
  define a where "a = y div 0x40"
  define b where "b = y mod 0x40"
  define c where "c = x mod 0x40"
  define d where "d = cp mod 0x40"
  have cp: "cp = x * 0x40 + d" and d: "d < 0x40" by (simp_all add: x_def d_def)
  have x: "x = y * 0x40 + c" and c: "c < 0x40" by (simp_all add: y_def c_def)
  have y: "y = a * 0x40 + b" and b: "b < 0x40" by (simp_all add: a_def b_def)
  have y_eq: "cp div 0x1000 = y"
    unfolding y_def x_def by (simp add: div_mult2_eq [symmetric])
  have a_eq: "cp div 0x40000 = a"
    unfolding a_def y_def x_def by (simp add: div_mult2_eq [symmetric])
  from assms cp d x c y b have a: "a < 5" by linarith
  from assms cp d x c y b have lo: "a = 0 \<Longrightarrow> 0x10 \<le> b" by linarith
  from assms cp d x c y b have hi: "a = 4 \<Longrightarrow> b < 0x10" by linarith
  have "utf8_bytes cp
      = [of_nat (0xF0 + a), of_nat (0x80 + b), of_nat (0x80 + c), of_nat (0x80 + d)]"
    using assms unfolding utf8_bytes_def a_eq [symmetric] b_def y_eq [symmetric] c_def d_def
      x_def
    by (simp del: of_nat_add)
  moreover have "unat (of_nat (0xF0 + a) :: byte) = 0xF0 + a"
    "unat (of_nat (0x80 + b) :: byte) = 0x80 + b"
    "unat (of_nat (0x80 + c) :: byte) = 0x80 + c"
    "unat (of_nat (0x80 + d) :: byte) = 0x80 + d"
    using a b c d by (simp_all only: unat_byte)
  ultimately have bytes:
    "map unat (utf8_bytes cp) = [0xF0 + a, 0x80 + b, 0x80 + c, 0x80 + d]"
    by (simp only: list.map)
  define lower :: nat where "lower = (if a = 0 then 0x90 else 0x80)"
  define upper :: nat where "upper = (if a = 4 then 0x8F else 0xBF)"
  have "(0xF0 + a) mod 8 = a" using a by (intro offset_mod) simp_all
  then have lead: "utf8_lead (0xF0 + a) = ([], (a, 0, 3, lower, upper))"
    using a by (simp add: utf8_lead_def lower_def upper_def)
  have range: "lower \<le> 0x80 + b" "0x80 + b \<le> upper"
    using lo hi b by (auto simp: lower_def upper_def)
  have "utf8_decode utf8_start ([0xF0 + a, 0x80 + b, 0x80 + c, 0x80 + d] @ bs)
      = utf8_decode (a, 0, 3, lower, upper) ((0x80 + b) # (0x80 + c) # (0x80 + d) # bs)"
    by (simp add: decode_lead lead del: utf8_decode.simps)
  also have "\<dots> = utf8_decode (y, 1, 3, 0x80, 0xBF) ((0x80 + c) # (0x80 + d) # bs)"
    by (rule decode_continue) (use range b y in simp_all)
  also have "\<dots> = utf8_decode (x, 2, 3, 0x80, 0xBF) ((0x80 + d) # bs)"
    by (rule decode_continue) (use c x in simp_all)
  also have "\<dots> = cp # utf8_decode utf8_start bs"
    by (rule decode_last) (use d cp in simp_all)
  finally show ?thesis unfolding bytes .
qed

lemma decode_scalar:
  assumes "scalar cp"
  shows "utf8_decode utf8_start (map unat (utf8_bytes cp) @ bs) = cp # utf8_decode utf8_start bs"
proof -
  consider "cp < 0x80" | "0x80 \<le> cp" "cp < 0x800" | "0x800 \<le> cp" "cp < 0x10000"
    | "0x10000 \<le> cp" by linarith
  then show ?thesis
  proof cases
    case 1 then show ?thesis by (rule decode1)
  next
    case 2 then show ?thesis by (rule decode2)
  next
    case 3 with assms show ?thesis by (intro decode3) (simp_all add: scalar_def)
  next
    case 4 with assms show ?thesis by (intro decode4) (simp_all add: scalar_def)
  qed
qed

lemma decode_scalars:
  assumes "\<forall>cp \<in> set cps. scalar cp"
  shows "utf8_decode utf8_start (map unat (concat (map utf8_bytes cps))) = cps"
  using assms
proof (induction cps)
  case Nil
  then show ?case by (simp add: utf8_start_def)
next
  case (Cons cp cps)
  then show ?case by (simp add: decode_scalar)
qed


lemma unat_unit_less: "unat (u :: code_unit) < 0x10000"
  using unsigned_less [of u] by simp

lemma pair_value:
  assumes "is_high_surrogate u" and "is_low_surrogate v"
  shows "scalar (0x10000 + (unat u - 0xD800) * 0x400 + (unat v - 0xDC00))"
    and "utf16_units (0x10000 + (unat u - 0xD800) * 0x400 + (unat v - 0xDC00)) = [u, v]"
    and "0x10000 + (unat u - 0xD800) * 0x400 + (unat v - 0xDC00) \<noteq> 0xFEFF"
proof -
  define hi where "hi = unat u - 0xD800"
  define lo where "lo = unat v - 0xDC00"
  from assms have r: "0xD800 \<le> unat u" "unat u \<le> 0xDBFF" "0xDC00 \<le> unat v"
    "unat v \<le> 0xDFFF"
    by (simp_all add: is_high_surrogate_def is_low_surrogate_def)
  from r(1,2) have u: "unat u = 0xD800 + hi" and hi: "hi < 0x400"
    unfolding hi_def by linarith+
  from r(3,4) have v: "unat v = 0xDC00 + lo" and lo: "lo < 0x400"
    unfolding lo_def by linarith+
  let ?cp = "0x10000 + hi * 0x400 + lo"
  from hi lo show "scalar (0x10000 + (unat u - 0xD800) * 0x400 + (unat v - 0xDC00))"
    unfolding hi_def [symmetric] lo_def [symmetric] scalar_def by simp
  have "(?cp - 0x10000) div 0x400 = hi" "(?cp - 0x10000) mod 0x400 = lo"
    using lo by simp_all
  then have "utf16_units ?cp = [of_nat (0xD800 + hi), of_nat (0xDC00 + lo)]"
    by (simp add: utf16_units_def del: of_nat_add)
  also have "\<dots> = [of_nat (unat u), of_nat (unat v)]" by (simp only: u v)
  also have "\<dots> = [u, v]" by simp
  finally show "utf16_units (0x10000 + (unat u - 0xD800) * 0x400 + (unat v - 0xDC00)) = [u, v]"
    unfolding hi_def lo_def .
  show "0x10000 + (unat u - 0xD800) * 0x400 + (unat v - 0xDC00) \<noteq> 0xFEFF" by simp
qed

lemma unit_value:
  assumes "\<not> is_high_surrogate u" and "\<not> is_low_surrogate u"
  shows "scalar (unat u)" and "utf16_units (unat u) = [u]"
  using assms unat_unit_less [of u]
  by (auto simp: scalar_def utf16_units_def is_high_surrogate_def is_low_surrogate_def)

lemma well_formed_scalars:
  "well_formed p \<Longrightarrow> (\<forall>cp \<in> set (scalar_values p). scalar cp)
     \<and> concat (map utf16_units (scalar_values p)) = p"
proof (induction p rule: well_formed.induct)
  case 1
  then show ?case by simp
next
  case (2 u)
  then show ?case by (simp add: unit_value)
next
  case (3 u v rest)
  show ?case
  proof (cases "is_high_surrogate u")
    case True
    with 3 show ?thesis by (simp add: pair_value)
  next
    case False
    with 3 show ?thesis by (simp add: unit_value)
  qed
qed

lemma unat_bom:
  assumes "unat (u :: code_unit) = 0xFEFF"
  shows "u = 0xFEFF"
proof -
  from arg_cong [OF assms, of "of_nat :: nat \<Rightarrow> code_unit"] show ?thesis by simp
qed

lemma well_formed_no_bom:
  assumes "well_formed p" and "p = [] \<or> hd p \<noteq> 0xFEFF"
  shows "strip_bom (scalar_values p) = scalar_values p"
proof (cases p rule: scalar_values.cases)
  case 1
  then show ?thesis by (simp add: strip_bom_def)
next
  case (2 u)
  with assms have "u \<noteq> 0xFEFF" by simp
  then have "unat u \<noteq> 0xFEFF" using unat_bom by blast
  with 2 assms show ?thesis by (simp add: strip_bom_def)
next
  case (3 u v rest)
  show ?thesis
  proof (cases "is_high_surrogate u")
    case True
    with 3 assms show ?thesis by (simp add: strip_bom_def pair_value)
  next
    case False
    from 3 assms have "u \<noteq> 0xFEFF" by simp
    then have "unat u \<noteq> 0xFEFF" using unat_bom by blast
    with 3 assms False show ?thesis by (simp add: strip_bom_def)
  qed
qed

text \<open>
  The two codecs give back a string that is well formed and does not begin with U+FEFF,
  so that for such a plaintext the round trip holds.
\<close>

lemma codecs_roundtrip:
  assumes "well_formed p" and "p = [] \<or> hd p \<noteq> 0xFEFF"
  shows "TextDecoder_decode (TextEncoder_encode p) = p"
  unfolding TextDecoder_decode_def TextEncoder_encode_def
  using well_formed_scalars [OF assms(1)] well_formed_no_bom [OF assms]
  by (simp add: decode_scalars)

lemma decrypt_encrypt_well_formed:
  assumes "length iv = ivLength"
    and "gcm_decrypt P key iv (gcm_encrypt P key iv (TextEncoder_encode plaintext))
           = Some (TextEncoder_encode plaintext)"
    and "well_formed plaintext" and "plaintext = [] \<or> hd plaintext \<noteq> 0xFEFF"
  shows "decrypt P (encrypt P iv plaintext key) key = Inr plaintext"
  using decrypt_encrypt_codecs [OF assms(1,2)] codecs_roundtrip [OF assms(3,4)] by simp

lemma hello_roundtrip: "well_formed hello \<and> TextDecoder_decode (TextEncoder_encode hello) = hello"
proof -
  have w: "well_formed hello"
    by (simp add: hello_def is_high_surrogate_def is_low_surrogate_def)
  have "hd hello \<noteq> 0xFEFF" by (simp add: hello_def)
  with codecs_roundtrip [OF w] w show ?thesis by simp
qed

section \<open>The retrieval handler, step by step\<close>

lemma demo_token_valid: "validateCSRFToken demo_runtime 5 ''5.2a'' demo_secret"
  by (simp add: validateCSRFToken_def parseInt_def is_ws_def radix_digit_def digit_value_def
      radix_value_def num_gt_def num_lt_def demo_runtime_def signatureHex_def padStart_def
      toString16_def digit_char_def hex_chars_def)

lemma demo_lookup:
  "now_validate E = 5 \<Longrightarrow> \<not> get_throws E \<Longrightarrow>
   retrieve_lookup demo_runtime E demo_secret (Some demo_request) kv
   = Fetched (hashSecretId demo_runtime ''id'') (kv (hashSecretId demo_runtime ''id''))"
  using demo_token_valid
  by (simp add: retrieve_lookup_def demo_request_def Let_def)

lemma demo_reaches_store: "reaches_store demo_runtime demo_secret demo_call"
  by (simp add: reaches_store_def demo_call_def demo_lookup demo_env_def)

lemma demo_against: "against ''id'' demo_call"
  by (simp add: against_def demo_call_def demo_request_def)

lemma demo_writes_succeed: "writes_succeed demo_call"
  by (simp add: writes_succeed_def demo_call_def demo_env_def)

lemma demo_stored:
  "demo_kv (hashSecretId demo_runtime ''id'')
     = Some \<lparr>text_of = Json demo_record, expirationTtl = Some (Finite 3600)\<rparr>"
  by (simp add: demo_kv_def)

lemma retrieve_lookup_invalid_json:
  "retrieve_lookup W E secret None kv = Replied (Response 400 (Error ''Invalid JSON''))"
  by (simp add: retrieve_lookup_def)

lemma retrieve_lookup_missing:
  "r_secretId data = None \<or> r_csrfToken data = None \<Longrightarrow>
   retrieve_lookup W E secret (Some data) kv
   = Replied (Response 400 (Error ''Missing secretId or csrfToken''))"
  by (cases "r_secretId data"; cases "r_csrfToken data") (simp_all add: retrieve_lookup_def)

lemma retrieve_lookup_present:
  "r_secretId data = Some sid \<Longrightarrow> r_csrfToken data = Some tok \<Longrightarrow>
   retrieve_lookup W E secret (Some data) kv
   = (if sid = [] \<or> tok = [] then
        Replied (Response 400 (Error ''Missing secretId or csrfToken''))
      else if \<not> validateCSRFToken W (now_validate E) tok secret then
        Replied (Response 403 (Error ''Invalid CSRF token''))
      else if get_throws E then
        Replied (Response 500 (Error ''Failed to retrieve secret''))
      else Fetched (hashSecretId W sid) (kv (hashSecretId W sid)))"
  by (simp add: retrieve_lookup_def Let_def)

lemma retrieve_lookup_Fetched:
  assumes "retrieve_lookup W E secret request kv = Fetched h sd"
  shows "sd = kv h \<and> \<not> get_throws E \<and>
     (\<exists>data sid tok. request = Some data \<and> r_secretId data = Some sid \<and> sid \<noteq> []
        \<and> r_csrfToken data = Some tok \<and> tok \<noteq> []
        \<and> validateCSRFToken W (now_validate E) tok secret \<and> h = hashSecretId W sid)"
proof (cases request)
  case None
  with assms show ?thesis by (simp add: retrieve_lookup_invalid_json)
next
  case (Some data)
  show ?thesis
  proof (cases "r_secretId data = None \<or> r_csrfToken data = None")
    case True
    with assms Some show ?thesis by (simp add: retrieve_lookup_missing)
  next
    case False
    then obtain sid tok where f: "r_secretId data = Some sid" "r_csrfToken data = Some tok"
      by auto
    from assms show ?thesis
      unfolding Some retrieve_lookup_present [OF f] using f
      by (auto split: if_splits)
  qed
qed

lemma retrieve_lookup_other_kv:
  "retrieve_lookup W E secret request kv2
   = (case retrieve_lookup W E secret request kv of
        Replied r \<Rightarrow> Replied r
      | Fetched h sd \<Rightarrow> Fetched h (kv2 h))"
proof (cases request)
  case None
  then show ?thesis by (simp add: retrieve_lookup_invalid_json)
next
  case (Some data)
  show ?thesis
  proof (cases "r_secretId data = None \<or> r_csrfToken data = None")
    case True
    with Some show ?thesis by (simp add: retrieve_lookup_missing)
  next
    case False
    then obtain sid tok where f: "r_secretId data = Some sid" "r_csrfToken data = Some tok"
      by auto
    show ?thesis unfolding Some retrieve_lookup_present [OF f] by simp
  qed
qed

lemma ceiling_last_view:
  fixes x :: rat
  assumes "0 < x" and "x \<le> 1"
  shows "nat \<lceil>x\<rceil> = 1"
proof -
  have "\<lceil>x\<rceil> = 1" using assms by (simp add: ceiling_eq_iff)
  then show ?thesis by simp
qed

lemma ceiling_next_view:
  fixes x :: rat
  assumes "1 < x"
  shows "Suc (nat \<lceil>x - 1\<rceil>) = nat \<lceil>x\<rceil>"
proof -
  have "1 < \<lceil>x\<rceil>" using assms by (simp add: less_ceiling_iff)
  then have "Suc (nat (\<lceil>x\<rceil> - 1)) = nat \<lceil>x\<rceil>" by linarith
  then show ?thesis by (simp only: ceiling_diff_one)
qed

lemma ceiling_no_view:
  fixes x :: rat
  assumes "x \<le> 0"
  shows "nat \<lceil>x\<rceil> = 0"
  using assms by (simp add: ceiling_le_zero)

lemma ToNumber_finite: "ToNumber W (JNum n) = Inr n"
  by (simp add: ToNumber_def)

lemma js_ge_finite: "js_ge (Finite v) (Finite m) = (m \<le> v)"
  by auto

lemma js_ge_NaN: "js_ge a NaN = False"
  by (cases a) simp_all

lemma stringify_parse_finite: "stringify_parse (JNum (Finite m)) = JNum (Finite m)"
  by simp

lemma complete_absent:
  "retrieve_complete W E h None kv
   = (Inr (Response 404 (Error ''Secret not found or expired'')), kv)"
  by (simp add: retrieve_complete_def)

lemma complete_unparsable:
  "text_of entry = NotJson \<Longrightarrow>
   retrieve_complete W E h (Some entry) kv
   = (Inr (Response 500 (Error ''Invalid secret data'')), kv)"
  by (simp add: retrieve_complete_def)

lemma complete_throws:
  "text_of entry = Json d \<Longrightarrow> ToNumber W (maxViews d) = Inl e \<Longrightarrow>
   retrieve_complete W E h (Some entry) kv = (Inl e, kv)"
  by (simp add: retrieve_complete_def)

lemma complete_refuses:
  "text_of entry = Json d \<Longrightarrow> ToNumber W (maxViews d) = Inr limit \<Longrightarrow>
   js_ge (Finite (viewCount d)) limit \<Longrightarrow>
   retrieve_complete W E h (Some entry) kv
   = (if delete_throws E then (Inl KVError, kv)
      else (Inr (Response 410 (Error ''Secret has exceeded maximum views'')),
            kv(h := None)))"
  by (simp add: retrieve_complete_def)

lemma complete_passes:
  "text_of entry = Json d \<Longrightarrow> ToNumber W (maxViews d) = Inr limit \<Longrightarrow>
   \<not> js_ge (Finite (viewCount d)) limit \<Longrightarrow>
   retrieve_complete W E h (Some entry) kv
   = (Inr (Response 200
        (Retrieved (encryptedData d) (viewCount d + 1) (maxViews d)
           (js_ge (Finite (viewCount d + 1)) limit) (createdAt d))),
      if js_ge (Finite (viewCount d + 1)) limit then
        (if delete_throws E then kv else kv(h := None))
      else
        (if put_throws E then kv
         else kv(h \<mapsto> \<lparr>text_of = Json (stringify_parse_record (d\<lparr>viewCount := viewCount d + 1\<rparr>)),
                        expirationTtl = None\<rparr>)))"
  by (simp add: retrieve_complete_def Let_def)

lemma complete_exhausted:
  "text_of entry = Json d \<Longrightarrow> maxViews d = JNum (Finite m) \<Longrightarrow> m \<le> viewCount d \<Longrightarrow>
   retrieve_complete W E h (Some entry) kv
   = (if delete_throws E then (Inl KVError, kv)
      else (Inr (Response 410 (Error ''Secret has exceeded maximum views'')),
            kv(h := None)))"
  using complete_refuses [of entry d W "Finite m" E h kv]
  by (simp add: ToNumber_finite)

lemma complete_last_view:
  "text_of entry = Json d \<Longrightarrow> maxViews d = JNum (Finite m) \<Longrightarrow> viewCount d < m \<Longrightarrow>
   m \<le> viewCount d + 1 \<Longrightarrow>
   retrieve_complete W E h (Some entry) kv
   = (Inr (Response 200
        (Retrieved (encryptedData d) (viewCount d + 1) (maxViews d) True (createdAt d))),
      if delete_throws E then kv else kv(h := None))"
  using complete_passes [of entry d W "Finite m" E h kv]
  by (simp add: ToNumber_finite)

lemma complete_more_views:
  "text_of entry = Json d \<Longrightarrow> maxViews d = JNum (Finite m) \<Longrightarrow> viewCount d + 1 < m \<Longrightarrow>
   retrieve_complete W E h (Some entry) kv
   = (Inr (Response 200
        (Retrieved (encryptedData d) (viewCount d + 1) (maxViews d) False (createdAt d))),
      if put_throws E then kv
      else kv(h \<mapsto> \<lparr>text_of = Json (stringify_parse_record (d\<lparr>viewCount := viewCount d + 1\<rparr>)),
                     expirationTtl = None\<rparr>))"
  using complete_passes [of entry d W "Finite m" E h kv]
  by (simp add: ToNumber_finite)

lemma view_cases:
  fixes v m :: rat
  obtains "m \<le> v" | "v < m" "m \<le> v + 1" | "v + 1 < m"
  by linarith

lemma numeric_record:
  assumes "numeric kv h" and "kv h = Some entry"
  obtains d m where "text_of entry = Json d" and "maxViews d = JNum (Finite m)"
proof (cases "text_of entry")
  case NotJson
  with assms show ?thesis by (simp add: numeric_def)
next
  case (Json d)
  show ?thesis
  proof (cases "maxViews d")
    case (JNum n)
    with assms Json that show ?thesis by (cases n) (simp_all add: numeric_def)
  qed (use assms Json in \<open>simp_all add: numeric_def\<close>)
qed

lemma complete_step:
  assumes "\<not> put_throws E" and "\<not> delete_throws E"
    and "retrieve_complete W E h (kv h) kv = (r, kv')"
    and "numeric kv h"
  shows "views_left kv' h + (if returns_envelope r then 1 else 0) = views_left kv h
       \<and> numeric kv' h
       \<and> (\<forall>h'. h' \<noteq> h \<longrightarrow> kv' h' = kv h')"
proof (cases "kv h")
  case None
  with assms(3) show ?thesis
    by (auto simp: complete_absent views_left_def numeric_def)
next
  case (Some entry)
  from numeric_record [OF assms(4) Some] obtain d m where
    Json: "text_of entry = Json d" and m: "maxViews d = JNum (Finite m)"
    by blast
  have vl: "views_left kv h = nat \<lceil>m - viewCount d\<rceil>"
    using Some Json m by (simp add: views_left_def)
  show ?thesis
  proof (cases rule: view_cases [of m "viewCount d"])
    case 1
    then have "nat \<lceil>m - viewCount d\<rceil> = 0" by (simp add: ceiling_no_view)
    moreover have "r = Inr (Response 410 (Error ''Secret has exceeded maximum views''))"
      "kv' = kv(h := None)"
      using assms Some complete_exhausted [OF Json m 1] by simp_all
    ultimately show ?thesis using vl
      by (simp add: views_left_def numeric_def)
  next
    case 2
    then have "nat \<lceil>m - viewCount d\<rceil> = 1" by (simp add: ceiling_last_view)
    moreover have "returns_envelope r" "kv' = kv(h := None)"
      using assms Some complete_last_view [OF Json m 2] by auto
    ultimately show ?thesis using vl
      by (simp add: views_left_def numeric_def)
  next
    case 3
    have "Suc (nat \<lceil>(m - viewCount d) - 1\<rceil>) = nat \<lceil>m - viewCount d\<rceil>"
      by (rule ceiling_next_view) (use 3 in simp)
    moreover have "m - (viewCount d + 1) = (m - viewCount d) - 1" by simp
    ultimately have e: "Suc (nat \<lceil>m - (viewCount d + 1)\<rceil>) = nat \<lceil>m - viewCount d\<rceil>"
      by (simp only:)
    have r: "returns_envelope r"
      and kv': "kv' = kv(h \<mapsto> \<lparr>text_of = Json (stringify_parse_record (d\<lparr>viewCount := viewCount d + 1\<rparr>)),
                   expirationTtl = None\<rparr>)"
      using assms Some complete_more_views [OF Json m 3] by auto
    have vl': "views_left kv' h = nat \<lceil>m - (viewCount d + 1)\<rceil>"
      unfolding kv' using m by (simp add: views_left_def stringify_parse_record_def)
    have "views_left kv' h + (if returns_envelope r then 1 else 0) = views_left kv h"
      unfolding vl vl' using e r by (simp only: if_True Suc_eq_plus1)
    moreover have "numeric kv' h"
      unfolding kv' using m by (simp add: numeric_def stringify_parse_record_def)
    moreover have "\<forall>h'. h' \<noteq> h \<longrightarrow> kv' h' = kv h'" unfolding kv' by simp
    ultimately show ?thesis by blast
  qed
qed

lemma retrieve_lookup_Replied:
  assumes "retrieve_lookup W E secret request kv = Replied r"
  shows "\<exists>s msg. r = Response s (Error msg)"
proof (cases request)
  case None
  with assms show ?thesis by (auto simp: retrieve_lookup_invalid_json)
next
  case (Some data)
  show ?thesis
  proof (cases "r_secretId data = None \<or> r_csrfToken data = None")
    case True
    with assms Some show ?thesis by (auto simp: retrieve_lookup_missing)
  next
    case False
    then obtain sid tok where f: "r_secretId data = Some sid" "r_csrfToken data = Some tok"
      by auto
    from assms show ?thesis
      unfolding Some retrieve_lookup_present [OF f] by (auto split: if_splits)
  qed
qed

lemma against_lookup:
  assumes "against s c" and "retrieve_lookup W (fst c) secret (snd c) kv = Fetched h sd"
  shows "h = hashSecretId W s \<and> sd = kv (hashSecretId W s)"
  using retrieve_lookup_Fetched [OF assms(2)] assms(1)
  by (auto simp: against_def)

lemma handle_step:
  assumes a: "against s c" and w: "writes_succeed c"
    and run: "handleRetrieveSecret W (fst c) secret (snd c) kv = (r, kv')"
    and n: "numeric kv (hashSecretId W s)"
  shows "views_left kv' (hashSecretId W s) + (if returns_envelope r then 1 else 0)
           = views_left kv (hashSecretId W s)
       \<and> numeric kv' (hashSecretId W s)"
proof (cases "retrieve_lookup W (fst c) secret (snd c) kv")
  case (Replied r0)
  from retrieve_lookup_Replied [OF Replied] obtain st msg where "r0 = Response st (Error msg)"
    by blast
  with run Replied n show ?thesis by (auto simp: handleRetrieveSecret_def)
next
  case (Fetched h sd)
  from against_lookup [OF a Fetched]
  have h: "h = hashSecretId W s" and sd: "sd = kv (hashSecretId W s)" by simp_all
  from run Fetched
  have "retrieve_complete W (fst c) (hashSecretId W s) (kv (hashSecretId W s)) kv = (r, kv')"
    by (simp add: handleRetrieveSecret_def h sd)
  from complete_step [OF _ _ this n] w show ?thesis
    by (simp add: writes_succeed_def)
qed

lemma retrieve_all_append:
  "retrieve_all W secret (xs @ ys) kv =
     (let (rs, kv') = retrieve_all W secret xs kv;
          (rs', kv'') = retrieve_all W secret ys kv'
      in (rs @ rs', kv''))"
  by (induction xs arbitrary: kv) (auto simp: Let_def split: prod.splits)

lemma retrieve_all_count:
  assumes "\<forall>c \<in> set calls. against s c \<and> writes_succeed c"
    and "numeric kv (hashSecretId W s)"
  shows "envelopes (fst (retrieve_all W secret calls kv))
           + views_left (snd (retrieve_all W secret calls kv)) (hashSecretId W s)
         = views_left kv (hashSecretId W s)
       \<and> numeric (snd (retrieve_all W secret calls kv)) (hashSecretId W s)"
  using assms
proof (induction calls arbitrary: kv)
  case Nil
  then show ?case by (simp add: envelopes_def)
next
  case (Cons c calls)
  obtain E request where c: "c = (E, request)" by (cases c)
  obtain r kv' where run: "handleRetrieveSecret W E secret request kv = (r, kv')"
    by (cases "handleRetrieveSecret W E secret request kv")
  obtain rs kv'' where rest: "retrieve_all W secret calls kv' = (rs, kv'')"
    by (cases "retrieve_all W secret calls kv'")
  from Cons.prems have ac: "against s c" "writes_succeed c"
    and "\<forall>c \<in> set calls. against s c \<and> writes_succeed c" by simp_all
  note rest_calls = this(3)
  from handle_step [OF ac, of W secret kv r kv'] run c Cons.prems(2)
  have st: "views_left kv' (hashSecretId W s) + (if returns_envelope r then 1 else 0)
      = views_left kv (hashSecretId W s)"
    "numeric kv' (hashSecretId W s)" by simp_all
  from Cons.IH [OF rest_calls st(2)] rest
  have ih: "envelopes rs + views_left kv'' (hashSecretId W s) = views_left kv' (hashSecretId W s)"
    "numeric kv'' (hashSecretId W s)" by simp_all
  have "envelopes (r # rs) = envelopes rs + (if returns_envelope r then 1 else 0)"
    by (simp add: envelopes_def)
  with ih st show ?case by (simp add: c run rest)
qed

lemma reaches_store_lookup:
  assumes "reaches_store W secret c" and "against s c"
  shows "retrieve_lookup W (fst c) secret (snd c) kv
         = Fetched (hashSecretId W s) (kv (hashSecretId W s))"
proof -
  from assms(1) obtain h0 sd0 where
    e: "retrieve_lookup W (fst c) secret (snd c) Map.empty = Fetched h0 sd0"
    by (auto simp: reaches_store_def split: lookup.splits)
  from against_lookup [OF assms(2) e] have "h0 = hashSecretId W s" by simp
  with e retrieve_lookup_other_kv [of W "fst c" secret "snd c" kv Map.empty]
  show ?thesis by simp
qed

lemma no_views_left_refused:
  assumes z: "views_left kv (hashSecretId W s) = 0" and p: "numeric kv (hashSecretId W s)"
    and a: "against s c" and w: "writes_succeed c" and rs: "reaches_store W secret c"
  shows "refused (fst (handleRetrieveSecret W (fst c) secret (snd c) kv))"
proof -
  let ?h = "hashSecretId W s"
  have run: "handleRetrieveSecret W (fst c) secret (snd c) kv
      = retrieve_complete W (fst c) ?h (kv ?h) kv"
    by (simp add: handleRetrieveSecret_def reaches_store_lookup [OF rs a])
  show ?thesis
  proof (cases "kv ?h")
    case None
    then show ?thesis by (simp add: run complete_absent)
  next
    case (Some entry)
    from numeric_record [OF p Some] obtain d m where
      j: "text_of entry = Json d" and m: "maxViews d = JNum (Finite m)"
      by blast
    from z Some j m have "\<lceil>m - viewCount d\<rceil> \<le> 0"
      by (simp add: views_left_def)
    then have "m \<le> viewCount d" by (simp add: ceiling_le_zero)
    from complete_exhausted [OF j m this] w show ?thesis
      by (simp add: run Some writes_succeed_def)
  qed
qed

section \<open>The view limit\<close>

text \<open>
  C1 (as amended). For a stored record whose \<^verbatim>\<open>maxViews\<close> is a whole number and
  whose \<^verbatim>\<open>viewCount\<close> is not negative, and for every sequence of retrieve calls
  against its external id, handled one after the other, in which no KV \<^verbatim>\<open>put\<close> or
  \<^verbatim>\<open>delete\<close> throws: the number of calls that return the envelope is at most
  \<^verbatim>\<open>maxViews\<close>; and once the envelope has been returned \<^verbatim>\<open>maxViews\<close> times,
  no later call returns it, and every later call that gets past the body and token checks
  and the KV read is refused with 404 (not found) or 410 (exhausted).
\<close>

theorem view_limit_sequential:
  assumes calls: "\<forall>c \<in> set calls. against s c \<and> writes_succeed c"
    and stored: "kv (hashSecretId W s) = Some entry" "text_of entry = Json d"
    and number: "maxViews d = JNum (Finite m)"
    and whole: "m \<in> \<nat>" and nonneg: "0 \<le> viewCount d"
  shows "of_nat (envelopes (fst (retrieve_all W secret calls kv))) \<le> m
       \<and> (\<forall>before c after.
            calls = before @ c # after
            \<and> m \<le> of_nat (envelopes (fst (retrieve_all W secret before kv)))
            \<longrightarrow> \<not> returns_envelope
                  (fst (handleRetrieveSecret W (fst c) secret (snd c)
                         (snd (retrieve_all W secret before kv))))
              \<and> (reaches_store W secret c
                   \<longrightarrow> refused
                         (fst (handleRetrieveSecret W (fst c) secret (snd c)
                                (snd (retrieve_all W secret before kv))))))"
proof -
  let ?h = "hashSecretId W s"
  from whole obtain M :: nat where M: "m = of_nat M" by (auto elim: Nats_cases)
  have vl: "views_left kv ?h = nat \<lceil>m - viewCount d\<rceil>"
    using stored number by (simp add: views_left_def)
  have "\<lceil>m - viewCount d\<rceil> \<le> \<lceil>m\<rceil>"
    using nonneg by (intro ceiling_mono) simp
  then have bound: "views_left kv ?h \<le> M"
    unfolding vl M by simp
  have p: "numeric kv ?h" using stored number by (simp add: numeric_def)
  have count: "envelopes (fst (retrieve_all W secret cs kv))
           + views_left (snd (retrieve_all W secret cs kv)) ?h = views_left kv ?h"
    and keeps: "numeric (snd (retrieve_all W secret cs kv)) ?h"
    if "\<forall>c \<in> set cs. against s c \<and> writes_succeed c" for cs
    using retrieve_all_count [OF that p, of secret] by simp_all
  have first: "of_nat (envelopes (fst (retrieve_all W secret calls kv))) \<le> m"
    using count [OF calls] bound unfolding M by simp
  have second: "\<not> returns_envelope
                  (fst (handleRetrieveSecret W (fst c) secret (snd c)
                         (snd (retrieve_all W secret before kv))))
              \<and> (reaches_store W secret c
                   \<longrightarrow> refused
                         (fst (handleRetrieveSecret W (fst c) secret (snd c)
                                (snd (retrieve_all W secret before kv)))))"
    if split: "calls = before @ c # after"
      and used: "m \<le> of_nat (envelopes (fst (retrieve_all W secret before kv)))"
    for before c after
  proof -
    let ?kv1 = "snd (retrieve_all W secret before kv)"
    from calls split have b: "\<forall>c \<in> set before. against s c \<and> writes_succeed c"
      and c: "against s c" "writes_succeed c" by simp_all
    from used have "M \<le> envelopes (fst (retrieve_all W secret before kv))"
      unfolding M by simp
    with count [OF b] bound have z: "views_left ?kv1 ?h = 0" by simp
    obtain r kv' where run: "handleRetrieveSecret W (fst c) secret (snd c) ?kv1 = (r, kv')"
      by (cases "handleRetrieveSecret W (fst c) secret (snd c) ?kv1")
    from handle_step [OF c run keeps [OF b]] z have "\<not> returns_envelope r"
      by (auto split: if_splits)
    moreover have "reaches_store W secret c \<Longrightarrow>
        refused (fst (handleRetrieveSecret W (fst c) secret (snd c) ?kv1))"
      by (rule no_views_left_refused [OF z keeps [OF b] c])
    ultimately show ?thesis by (simp add: run)
  qed
  from first second show ?thesis by blast
qed


lemma demo_last_view:
  assumes "now_validate E = 5" and "\<not> get_throws E"
  shows "handleRetrieveSecret demo_runtime E demo_secret (Some demo_request) demo_kv
   = (Inr (Response 200 (Retrieved (JStr ''ct'') 1 (JNum (Finite 1)) True 3)),
      if delete_throws E then demo_kv else demo_kv(hashSecretId demo_runtime ''id'' := None))"
proof -
  let ?entry = "\<lparr>text_of = Json demo_record, expirationTtl = Some (Finite 3600)\<rparr>"
  have "text_of ?entry = Json demo_record" by simp
  moreover have "maxViews demo_record = JNum (Finite 1)" by (simp add: demo_record_def)
  ultimately have "retrieve_complete demo_runtime E (hashSecretId demo_runtime ''id'')
      (Some ?entry) demo_kv
    = (Inr (Response 200
        (Retrieved (encryptedData demo_record) (viewCount demo_record + 1)
           (maxViews demo_record) True (createdAt demo_record))),
      if delete_throws E then demo_kv
      else demo_kv(hashSecretId demo_runtime ''id'' := None))"
    by (rule complete_last_view) (simp_all add: demo_record_def)
  then show ?thesis
    by (simp add: handleRetrieveSecret_def demo_lookup [OF assms] demo_kv_def demo_record_def)
qed

lemma demo_after_last_view:
  assumes "now_validate E = 5" and "\<not> get_throws E"
  shows "handleRetrieveSecret demo_runtime E demo_secret (Some demo_request)
     (demo_kv(hashSecretId demo_runtime ''id'' := None))
   = (Inr (Response 404 (Error ''Secret not found or expired'')),
      demo_kv(hashSecretId demo_runtime ''id'' := None))"
  by (simp add: handleRetrieveSecret_def demo_lookup [OF assms] complete_absent)

text \<open>
  Without the condition on the writes the bound fails: on a record with
  \<^verbatim>\<open>maxViews = 1\<close>, two calls one after the other whose \<^verbatim>\<open>delete\<close> throws
  both return the envelope.
\<close>

theorem view_limit_counterexample:
  "\<not> of_nat (envelopes (fst (retrieve_all demo_runtime demo_secret
         [(demo_env\<lparr>delete_throws := True\<rparr>, Some demo_request),
          (demo_env\<lparr>delete_throws := True\<rparr>, Some demo_request)] demo_kv)))
       \<le> (1::rat)
   \<and> maxViews demo_record = JNum (Finite 1)"
proof -
  have "handleRetrieveSecret demo_runtime (demo_env\<lparr>delete_throws := True\<rparr>) demo_secret
      (Some demo_request) demo_kv
      = (Inr (Response 200 (Retrieved (JStr ''ct'') 1 (JNum (Finite 1)) True 3)), demo_kv)"
    using demo_last_view [of "demo_env\<lparr>delete_throws := True\<rparr>"]
    by (simp add: demo_env_def)
  then have "envelopes (fst (retrieve_all demo_runtime demo_secret
         [(demo_env\<lparr>delete_throws := True\<rparr>, Some demo_request),
          (demo_env\<lparr>delete_throws := True\<rparr>, Some demo_request)] demo_kv)) = 2"
    by (simp add: envelopes_def)
  then show ?thesis by (simp add: demo_record_def)
qed

theorem view_limit_sequential_witness:
  "against ''id'' demo_call \<and> writes_succeed demo_call
   \<and> maxViews demo_record = JNum (Finite 1) \<and> (1::rat) \<in> \<nat>
   \<and> 0 \<le> viewCount demo_record
   \<and> of_nat (envelopes (fst (retrieve_all demo_runtime demo_secret
         [demo_call, demo_call] demo_kv))) \<le> (1::rat)
   \<and> reaches_store demo_runtime demo_secret demo_call
   \<and> refused (fst (handleRetrieveSecret demo_runtime (fst demo_call) demo_secret
         (snd demo_call)
         (snd (retrieve_all demo_runtime demo_secret [demo_call] demo_kv))))"
proof -
  let ?entry = "\<lparr>text_of = Json demo_record, expirationTtl = Some (Finite 3600)\<rparr>"
  have env: "now_validate demo_env = 5" "\<not> get_throws demo_env" "\<not> delete_throws demo_env"
    by (simp_all add: demo_env_def)
  have a: "against ''id'' demo_call" "writes_succeed demo_call"
    by (simp_all add: against_def writes_succeed_def demo_call_def demo_request_def
        demo_env_def)
  then have calls: "\<forall>c \<in> set [demo_call, demo_call]. against ''id'' c \<and> writes_succeed c"
    by simp
  have stored: "demo_kv (hashSecretId demo_runtime ''id'') = Some ?entry"
    "text_of ?entry = Json demo_record"
    by (simp_all add: demo_kv_def)
  have number: "maxViews demo_record = JNum (Finite 1)"
    and whole: "(1::rat) \<in> \<nat>" and nonneg: "0 \<le> viewCount demo_record"
    by (simp_all add: demo_record_def)
  have first: "retrieve_all demo_runtime demo_secret [demo_call] demo_kv
      = ([Inr (Response 200 (Retrieved (JStr ''ct'') 1 (JNum (Finite 1)) True 3))],
         demo_kv(hashSecretId demo_runtime ''id'' := None))"
    using demo_last_view [OF env(1,2)] env(3) by (simp add: demo_call_def)
  have used: "(1::rat)
      \<le> of_nat (envelopes (fst (retrieve_all demo_runtime demo_secret [demo_call] demo_kv)))"
    by (simp add: first envelopes_def demo_record_def)
  have rs: "reaches_store demo_runtime demo_secret demo_call"
    by (simp add: reaches_store_def demo_call_def demo_lookup [OF env(1,2)])
  note t = view_limit_sequential [where calls = "[demo_call, demo_call]" and s = "''id''"
      and kv = demo_kv and W = demo_runtime and entry = ?entry and d = demo_record
      and secret = demo_secret and m = 1, OF calls stored number whole nonneg]
  from t have "of_nat (envelopes (fst (retrieve_all demo_runtime demo_secret
         [demo_call, demo_call] demo_kv))) \<le> (1::rat)"
    by blast
  moreover from t used rs
  have "refused (fst (handleRetrieveSecret demo_runtime (fst demo_call) demo_secret
         (snd demo_call)
         (snd (retrieve_all demo_runtime demo_secret [demo_call] demo_kv))))"
    by (metis append_Cons append_Nil)
  ultimately show ?thesis using a number whole nonneg rs by blast
qed


section \<open>What a successful retrieval reports\<close>

text \<open>
  C3 (as amended). A successful retrieve call answers 200 with the envelope of the record
  it read and with the view accounting after its own increment: the \<^verbatim>\<open>viewCount\<close>
  of the response is the stored \<^verbatim>\<open>viewCount\<close> plus one, \<^verbatim>\<open>maxViews\<close> and
  \<^verbatim>\<open>createdAt\<close> are the stored ones, and \<^verbatim>\<open>isLastView\<close> says whether the
  incremented count has reached \<^verbatim>\<open>maxViews\<close> (by the comparison \<^verbatim>\<open>>=\<close> of the
  source, on the number that the stored \<^verbatim>\<open>maxViews\<close> converts to).
\<close>

theorem retrieve_reports_incremented_count:
  assumes run: "handleRetrieveSecret W E secret request kv
      = (Inr (Response st (Retrieved e vc mv l c)), kv')"
  shows "\<exists>data sid entry d limit.
      request = Some data \<and> r_secretId data = Some sid
      \<and> kv (hashSecretId W sid) = Some entry \<and> text_of entry = Json d
      \<and> ToNumber W (maxViews d) = Inr limit
      \<and> st = 200 \<and> e = encryptedData d \<and> vc = viewCount d + 1 \<and> mv = maxViews d
      \<and> l = js_ge (Finite (viewCount d + 1)) limit \<and> c = createdAt d"
proof (cases "retrieve_lookup W E secret request kv")
  case (Replied r0)
  from retrieve_lookup_Replied [OF Replied] run Replied show ?thesis
    by (auto simp: handleRetrieveSecret_def)
next
  case (Fetched h sd)
  from retrieve_lookup_Fetched [OF Fetched] obtain data sid where
    sd: "sd = kv h" and req: "request = Some data" "r_secretId data = Some sid"
    and h: "h = hashSecretId W sid" by blast
  from run Fetched have rc: "retrieve_complete W E h sd kv
      = (Inr (Response st (Retrieved e vc mv l c)), kv')"
    by (simp add: handleRetrieveSecret_def)
  show ?thesis
  proof (cases sd)
    case None
    with rc show ?thesis by (simp add: complete_absent)
  next
    case (Some entry)
    show ?thesis
    proof (cases "text_of entry")
      case NotJson
      with rc Some show ?thesis by (simp add: complete_unparsable)
    next
      case (Json d)
      show ?thesis
      proof (cases "ToNumber W (maxViews d)")
        case (Inl err)
        from rc show ?thesis
          unfolding Some complete_throws [OF Json Inl] by simp
      next
        case (Inr limit)
        have "st = 200 \<and> e = encryptedData d \<and> vc = viewCount d + 1 \<and> mv = maxViews d
            \<and> l = js_ge (Finite (viewCount d + 1)) limit \<and> c = createdAt d"
        proof (cases "js_ge (Finite (viewCount d)) limit")
          case True
          from rc show ?thesis
            unfolding Some complete_refuses [OF Json Inr True] by (simp split: if_splits)
        next
          case False
          from rc show ?thesis
            unfolding Some complete_passes [OF Json Inr False] by auto
        qed
        with req Some Json Inr sd h show ?thesis by auto
      qed
    qed
  qed
qed

theorem retrieve_reports_incremented_count_witness:
  "handleRetrieveSecret demo_runtime demo_env demo_secret (Some demo_request) demo_kv
     = (Inr (Response 200 (Retrieved (JStr ''ct'') 1 (JNum (Finite 1)) True 3)),
        demo_kv(hashSecretId demo_runtime ''id'' := None))
   \<and> (\<exists>data sid entry d limit.
        Some demo_request = Some data \<and> r_secretId data = Some sid
        \<and> demo_kv (hashSecretId demo_runtime sid) = Some entry \<and> text_of entry = Json d
        \<and> ToNumber demo_runtime (maxViews d) = Inr limit
        \<and> (200::nat) = 200 \<and> JStr ''ct'' = encryptedData d \<and> (1::rat) = viewCount d + 1
        \<and> JNum (Finite 1) = maxViews d
        \<and> True = js_ge (Finite (viewCount d + 1)) limit \<and> (3::int) = createdAt d)"
proof -
  have run: "handleRetrieveSecret demo_runtime demo_env demo_secret (Some demo_request) demo_kv
     = (Inr (Response 200 (Retrieved (JStr ''ct'') 1 (JNum (Finite 1)) True 3)),
        demo_kv(hashSecretId demo_runtime ''id'' := None))"
    using demo_last_view [of demo_env] by (simp add: demo_env_def)
  from retrieve_reports_incremented_count [OF run] run show ?thesis by blast
qed

text \<open>
  The count in the response is not the count before the increment: a record stored with
  \<^verbatim>\<open>viewCount = 0\<close> is answered with \<^verbatim>\<open>viewCount = 1\<close>.
\<close>

theorem pre_increment_count_counterexample:
  "response_viewCount
     (fst (handleRetrieveSecret demo_runtime demo_env demo_secret (Some demo_request) demo_kv))
     = Some 1
   \<and> viewCount demo_record = 0
   \<and> response_viewCount
       (fst (handleRetrieveSecret demo_runtime demo_env demo_secret (Some demo_request)
              demo_kv))
     \<noteq> Some (viewCount demo_record)"
proof -
  have "handleRetrieveSecret demo_runtime demo_env demo_secret (Some demo_request) demo_kv
     = (Inr (Response 200 (Retrieved (JStr ''ct'') 1 (JNum (Finite 1)) True 3)),
        demo_kv(hashSecretId demo_runtime ''id'' := None))"
    using demo_last_view [of demo_env] by (simp add: demo_env_def)
  then show ?thesis by (simp add: demo_record_def)
qed

section \<open>Store errors after the count check\<close>

text \<open>
  C9. A retrieve call that gets to the view-count check and passes it (on the record it
  read, \<^verbatim>\<open>viewCount >= maxViews\<close> is false) answers 200 with the envelope whatever the KV
  operation that follows does: when the \<^verbatim>\<open>delete\<close> of the last view throws, or the
  \<^verbatim>\<open>put\<close> of the incremented record throws, the error is caught, the response is
  the same, and the namespace is left as it was (the view is not recorded, the record not
  deleted).
\<close>

theorem retrieve_succeeds_when_write_fails:
  assumes "r_secretId data = Some sid" and "sid \<noteq> []"
    and "r_csrfToken data = Some tok" and "tok \<noteq> []"
    and "validateCSRFToken W (now_validate E) tok secret" and "\<not> get_throws E"
    and "kv (hashSecretId W sid) = Some entry" and "text_of entry = Json d"
    and "ToNumber W (maxViews d) = Inr limit"
    and "\<not> js_ge (Finite (viewCount d)) limit"
  shows "fst (handleRetrieveSecret W E secret (Some data) kv)
       = Inr (Response 200
           (Retrieved (encryptedData d) (viewCount d + 1) (maxViews d)
              (js_ge (Finite (viewCount d + 1)) limit) (createdAt d)))
     \<and> (js_ge (Finite (viewCount d + 1)) limit \<and> delete_throws E
          \<longrightarrow> snd (handleRetrieveSecret W E secret (Some data) kv) = kv)
     \<and> (\<not> js_ge (Finite (viewCount d + 1)) limit \<and> put_throws E
          \<longrightarrow> snd (handleRetrieveSecret W E secret (Some data) kv) = kv)"
proof -
  have run: "handleRetrieveSecret W E secret (Some data) kv
      = retrieve_complete W E (hashSecretId W sid) (Some entry) kv"
    using assms(2,4,5,6,7)
    by (simp add: handleRetrieveSecret_def retrieve_lookup_present [OF assms(1,3)])
  show ?thesis
    unfolding run complete_passes [OF assms(8,9,10)] by simp
qed

theorem retrieve_succeeds_when_write_fails_witness:
  "r_secretId demo_request = Some ''id'' \<and> r_csrfToken demo_request = Some ''5.2a''
   \<and> validateCSRFToken demo_runtime (now_validate (demo_env\<lparr>delete_throws := True\<rparr>))
        ''5.2a'' demo_secret
   \<and> \<not> get_throws (demo_env\<lparr>delete_throws := True\<rparr>)
   \<and> delete_throws (demo_env\<lparr>delete_throws := True\<rparr>)
   \<and> ToNumber demo_runtime (maxViews demo_record) = Inr (Finite 1)
   \<and> \<not> js_ge (Finite (viewCount demo_record)) (Finite 1)
   \<and> js_ge (Finite (viewCount demo_record + 1)) (Finite 1)
   \<and> fst (handleRetrieveSecret demo_runtime (demo_env\<lparr>delete_throws := True\<rparr>) demo_secret
        (Some demo_request) demo_kv)
       = Inr (Response 200 (Retrieved (JStr ''ct'') 1 (JNum (Finite 1)) True 3))
   \<and> snd (handleRetrieveSecret demo_runtime (demo_env\<lparr>delete_throws := True\<rparr>) demo_secret
        (Some demo_request) demo_kv) = demo_kv"
proof -
  let ?E = "demo_env\<lparr>delete_throws := True\<rparr>"
  let ?entry = "\<lparr>text_of = Json demo_record, expirationTtl = Some (Finite 3600)\<rparr>"
  have r: "r_secretId demo_request = Some ''id''" "''id'' \<noteq> []"
    "r_csrfToken demo_request = Some ''5.2a''" "''5.2a'' \<noteq> []"
    by (simp_all add: demo_request_def)
  have v: "validateCSRFToken demo_runtime (now_validate ?E) ''5.2a'' demo_secret"
    using demo_token_valid by (simp add: demo_env_def)
  have g: "\<not> get_throws ?E" and dt: "delete_throws ?E" by (simp_all add: demo_env_def)
  have s: "demo_kv (hashSecretId demo_runtime ''id'') = Some ?entry"
    "text_of ?entry = Json demo_record"
    by (simp_all add: demo_kv_def)
  have c: "ToNumber demo_runtime (maxViews demo_record) = Inr (Finite 1)"
    "\<not> js_ge (Finite (viewCount demo_record)) (Finite 1)"
    "js_ge (Finite (viewCount demo_record + 1)) (Finite 1)"
    by (simp_all add: demo_record_def ToNumber_finite)
  note t = retrieve_succeeds_when_write_fails [where data = demo_request and sid = "''id''"
      and tok = "''5.2a''" and W = demo_runtime and E = ?E and secret = demo_secret
      and kv = demo_kv and entry = ?entry and d = demo_record and limit = "Finite 1",
      OF r v g s c(1,2)]
  from t c(3) dt have "snd (handleRetrieveSecret demo_runtime ?E demo_secret
        (Some demo_request) demo_kv) = demo_kv" by blast
  moreover from t have "fst (handleRetrieveSecret demo_runtime ?E demo_secret
        (Some demo_request) demo_kv) = Inr (Response 200 (Retrieved (JStr ''ct'') 1 (JNum (Finite 1)) True 3))"
    by (simp add: demo_record_def)
  ultimately show ?thesis using r v g dt c by blast
qed


section \<open>Creating a secret: the bounds\<close>

lemma create_missing:
  "c_encryptedData data = None \<or> c_csrfToken data = None \<or> c_maxViews data = None
     \<or> c_expirationHours data = None \<Longrightarrow>
   handleCreateSecret W E secret (Some data) kv
   = (Inr (Response 400 (Error ''Missing required fields'')), kv)"
  by (cases "c_encryptedData data"; cases "c_csrfToken data"; cases "c_maxViews data";
      cases "c_expirationHours data")
    (simp_all add: handleCreateSecret_def)

lemma create_falsy:
  "c_encryptedData data = Some encrypted \<Longrightarrow> c_csrfToken data = Some csrfToken \<Longrightarrow>
   falsy encrypted \<or> falsy csrfToken \<Longrightarrow>
   handleCreateSecret W E secret (Some data) kv
   = (Inr (Response 400 (Error ''Missing required fields'')), kv)"
  by (cases "c_maxViews data"; cases "c_expirationHours data")
    (simp_all add: handleCreateSecret_def)

lemma create_maxViews_throws:
  "c_encryptedData data = Some encrypted \<Longrightarrow> c_csrfToken data = Some csrfToken \<Longrightarrow>
   c_maxViews data = Some maxV \<Longrightarrow> c_expirationHours data = Some expirationHours \<Longrightarrow>
   \<not> falsy encrypted \<Longrightarrow> \<not> falsy csrfToken \<Longrightarrow>
   ToNumber W maxV = Inl e \<Longrightarrow>
   handleCreateSecret W E secret (Some data) kv = (Inl e, kv)"
  by (simp add: handleCreateSecret_def)

lemma create_present:
  "c_encryptedData data = Some encrypted \<Longrightarrow> c_csrfToken data = Some csrfToken \<Longrightarrow>
   c_maxViews data = Some maxV \<Longrightarrow> c_expirationHours data = Some expirationHours \<Longrightarrow>
   \<not> falsy encrypted \<Longrightarrow> \<not> falsy csrfToken \<Longrightarrow>
   ToNumber W maxV = Inr mv \<Longrightarrow>
   handleCreateSecret W E secret (Some data) kv
   = (if js_lt mv (Finite 1) \<or> js_gt mv (Finite 100) then
        (Inr (Response 400 (Error ''Max views must be between 1 and 100'')), kv)
      else
        (case ToNumber W expirationHours of
           Inl e \<Rightarrow> (Inl e, kv)
         | Inr eh \<Rightarrow>
             if js_lt eh (Finite 1) \<or> js_gt eh (Finite 8760) then
               (Inr (Response 400 (Error ''Expiration hours must be between 1 and 8760'')),
                kv)
             else
               (case csrfToken of
                  JStr tok \<Rightarrow>
                    if \<not> validateCSRFToken W (now_validate E) tok secret then
                      (Inr (Response 403 (Error ''Invalid CSRF token'')), kv)
                    else if put_throws E then
                      (Inr (Response 500 (Error ''Failed to store secret'')), kv)
                    else
                      (Inr (Response 200
                         (Created (generateSecretId (randomBytes E))
                            (js_plus (of_int (now_expiresAt E))
                               (js_times (js_times eh 3600) 1000))
                            maxV)),
                       kv(hashSecretId W (generateSecretId (randomBytes E)) \<mapsto>
                            \<lparr>text_of =
                               Json \<lparr>encryptedData = stringify_parse encrypted,
                                     maxViews = stringify_parse maxV, viewCount = 0,
                                     createdAt = now_createdAt E\<rparr>,
                             expirationTtl = Some (js_times eh 3600)\<rparr>))
                | _ \<Rightarrow> (Inl TypeError, kv))))"
  by (simp add: handleCreateSecret_def Let_def stringify_parse_record_def
      split: sum.splits json.splits)

text \<open>
  A value that converts to a number outside the range is rejected before any write: for
  \<^verbatim>\<open>maxViews\<close> always, and for \<^verbatim>\<open>expirationHours\<close> when the test of
  \<^verbatim>\<open>maxViews\<close> before it does not throw.
\<close>

lemma create_rejects_maxViews:
  assumes "c_maxViews data = Some maxV" and "ToNumber W maxV = Inr mv"
    and "js_lt mv (Finite 1) \<or> js_gt mv (Finite 100)"
  shows "\<exists>msg. handleCreateSecret W E secret (Some data) kv
           = (Inr (Response 400 (Error msg)), kv)"
proof (cases "c_encryptedData data = None \<or> c_csrfToken data = None
    \<or> c_expirationHours data = None")
  case True
  then have "c_encryptedData data = None \<or> c_csrfToken data = None
      \<or> c_maxViews data = None \<or> c_expirationHours data = None"
    by auto
  then show ?thesis by (simp add: create_missing)
next
  case False
  then obtain encrypted csrfToken expirationHours where
    f: "c_encryptedData data = Some encrypted" "c_csrfToken data = Some csrfToken"
      "c_expirationHours data = Some expirationHours"
    by auto
  show ?thesis
  proof (cases "falsy encrypted \<or> falsy csrfToken")
    case True
    then show ?thesis by (simp add: create_falsy [OF f(1,2)])
  next
    case False
    then have t: "\<not> falsy encrypted" "\<not> falsy csrfToken" by simp_all
    show ?thesis
      unfolding create_present [OF f(1,2) assms(1) f(3) t assms(2)] using assms(3) by simp
  qed
qed

lemma create_rejects_expirationHours:
  assumes "c_expirationHours data = Some expirationHours"
    and "ToNumber W expirationHours = Inr eh"
    and "js_lt eh (Finite 1) \<or> js_gt eh (Finite 8760)"
    and "\<forall>maxV. c_maxViews data = Some maxV \<longrightarrow> ToNumber W maxV \<noteq> Inl TypeError"
  shows "\<exists>msg. handleCreateSecret W E secret (Some data) kv
           = (Inr (Response 400 (Error msg)), kv)"
proof (cases "c_encryptedData data = None \<or> c_csrfToken data = None
    \<or> c_maxViews data = None")
  case True
  then have "c_encryptedData data = None \<or> c_csrfToken data = None
      \<or> c_maxViews data = None \<or> c_expirationHours data = None"
    by auto
  then show ?thesis by (simp add: create_missing)
next
  case False
  then obtain encrypted csrfToken maxV where
    f: "c_encryptedData data = Some encrypted" "c_csrfToken data = Some csrfToken"
      "c_maxViews data = Some maxV"
    by auto
  show ?thesis
  proof (cases "falsy encrypted \<or> falsy csrfToken")
    case True
    then show ?thesis by (simp add: create_falsy [OF f(1,2)])
  next
    case False
    then have t: "\<not> falsy encrypted" "\<not> falsy csrfToken" by simp_all
    from assms(4) f(3) have "ToNumber W maxV \<noteq> Inl TypeError" by simp
    then obtain mv where mv: "ToNumber W maxV = Inr mv"
      by (cases "ToNumber W maxV") (simp_all add: ToNumber_def split: json.splits if_splits)
    show ?thesis
      unfolding create_present [OF f(1,2,3) assms(1) t mv] using assms(2,3) by simp
  qed
qed

lemma demo_create_bad_rejected:
  "handleCreateSecret demo_runtime demo_env demo_secret (Some demo_create_bad) demo_kv
   = (Inr (Response 400 (Error ''Max views must be between 1 and 100'')), demo_kv)"
proof -
  have f: "c_encryptedData demo_create_bad = Some (JStr ''ct'')"
    "c_csrfToken demo_create_bad = Some (JStr ''5.2a'')"
    "c_maxViews demo_create_bad = Some (JNum (Finite 101))"
    "c_expirationHours demo_create_bad = Some (JNum (Finite 24))"
    by (simp_all add: demo_create_bad_def)
  have t: "\<not> falsy (JStr ''ct'')" "\<not> falsy (JStr ''5.2a'')" by simp_all
  show ?thesis
    unfolding create_present [OF f t ToNumber_finite] by (simp add: js_gt_def)
qed

lemma demo_to_number_abc: "to_number demo_runtime ''abc'' = NaN"
  by (simp add: demo_runtime_def demo_to_number_def radix_digit_def digit_value_def)

lemma ToNumber_empty_object: "ToNumber W (JObj []) = Inr NaN"
  by (simp add: ToNumber_def)

text \<open>
  C5 (where the code departs from it). The range test of \<^verbatim>\<open>maxViews\<close> is
  \<^verbatim>\<open>data.maxViews < 1 || data.maxViews > 100\<close> on the value of the body as it came. A
  value that converts to \<^verbatim>\<open>NaN\<close> (a text such as \<^verbatim>\<open>"abc"\<close>, an object such as
  \<^verbatim>\<open>{}\<close>) is not in \<open>[1, 100]\<close>, but both comparisons are false on it: with the other
  fields in order the request is not answered with a validation error. It is answered 200,
  and a record with that \<^verbatim>\<open>maxViews\<close> is written to the namespace.
\<close>

theorem create_accepts_unreadable_maxViews:
  assumes "c_encryptedData data = Some (JStr encrypted)" and "encrypted \<noteq> []"
    and "c_csrfToken data = Some (JStr tok)" and "tok \<noteq> []"
    and "c_maxViews data = Some maxV" and "ToNumber W maxV = Inr NaN"
    and "c_expirationHours data = Some (JNum (Finite eh))" and "1 \<le> eh" and "eh \<le> 8760"
    and "validateCSRFToken W (now_validate E) tok secret" and "\<not> put_throws E"
  shows "handleCreateSecret W E secret (Some data) kv
     = (Inr (Response 200
          (Created (generateSecretId (randomBytes E))
             (Finite (of_int (now_expiresAt E) + eh * 3600 * 1000)) maxV)),
        kv(hashSecretId W (generateSecretId (randomBytes E)) \<mapsto>
             \<lparr>text_of = Json \<lparr>encryptedData = JStr encrypted,
                               maxViews = stringify_parse maxV, viewCount = 0,
                               createdAt = now_createdAt E\<rparr>,
              expirationTtl = Some (Finite (eh * 3600))\<rparr>))"
proof -
  have t: "\<not> falsy (JStr encrypted)" "\<not> falsy (JStr tok)"
    using assms(2,4) by simp_all
  show ?thesis
    unfolding create_present [OF assms(1,3,5,7) t assms(6)]
    using assms(8,9,10,11) by (simp add: ToNumber_finite js_gt_def)
qed

theorem create_accepts_unreadable_maxViews_witness:
  "c_maxViews demo_create_object = Some (JObj [])
   \<and> ToNumber demo_runtime (JObj []) = Inr NaN
   \<and> c_expirationHours demo_create_object = Some (JNum (Finite 24))
   \<and> validateCSRFToken demo_runtime (now_validate demo_env) ''5.2a'' demo_secret
   \<and> \<not> put_throws demo_env
   \<and> handleCreateSecret demo_runtime demo_env demo_secret (Some demo_create_object) Map.empty
     = (Inr (Response 200
          (Created (generateSecretId (randomBytes demo_env))
             (Finite (of_int (now_expiresAt demo_env) + 24 * 3600 * 1000)) (JObj []))),
        [hashSecretId demo_runtime (generateSecretId (randomBytes demo_env)) \<mapsto>
             \<lparr>text_of = Json \<lparr>encryptedData = JStr ''ct'', maxViews = JObj [],
                               viewCount = 0, createdAt = now_createdAt demo_env\<rparr>,
              expirationTtl = Some (Finite (24 * 3600))\<rparr>])"
proof -
  have f: "c_encryptedData demo_create_object = Some (JStr ''ct'')" "''ct'' \<noteq> []"
    "c_csrfToken demo_create_object = Some (JStr ''5.2a'')" "''5.2a'' \<noteq> []"
    "c_maxViews demo_create_object = Some (JObj [])"
    by (simp_all add: demo_create_object_def)
  have n: "ToNumber demo_runtime (JObj []) = Inr NaN"
    by (rule ToNumber_empty_object)
  have g: "c_expirationHours demo_create_object = Some (JNum (Finite 24))"
    "(1::rat) \<le> 24" "(24::rat) \<le> 8760"
    by (simp_all add: demo_create_object_def)
  have v: "validateCSRFToken demo_runtime (now_validate demo_env) ''5.2a'' demo_secret"
    using demo_token_valid by (simp add: demo_env_def)
  have p: "\<not> put_throws demo_env" by (simp add: demo_env_def)
  from create_accepts_unreadable_maxViews [OF f n g v p, of Map.empty] f n g v p
  show ?thesis by simp
qed

text \<open>
  The same holds of the body whose \<^verbatim>\<open>maxViews\<close> is the text \<^verbatim>\<open>"abc"\<close>, on a
  runtime that converts this text to \<^verbatim>\<open>NaN\<close>, as the language does.
\<close>

lemma create_accepts_text_maxViews:
  assumes "to_number W ''abc'' = NaN"
    and "validateCSRFToken W (now_validate E) ''5.2a'' secret" and "\<not> put_throws E"
  shows "handleCreateSecret W E secret (Some demo_create_text) kv
     = (Inr (Response 200
          (Created (generateSecretId (randomBytes E))
             (Finite (of_int (now_expiresAt E) + 24 * 3600 * 1000)) (JStr ''abc''))),
        kv(hashSecretId W (generateSecretId (randomBytes E)) \<mapsto>
             \<lparr>text_of = Json \<lparr>encryptedData = JStr ''ct'', maxViews = JStr ''abc'',
                               viewCount = 0, createdAt = now_createdAt E\<rparr>,
              expirationTtl = Some (Finite (24 * 3600))\<rparr>))"
proof -
  have f: "c_encryptedData demo_create_text = Some (JStr ''ct'')"
    "c_csrfToken demo_create_text = Some (JStr ''5.2a'')"
    "c_maxViews demo_create_text = Some (JStr ''abc'')"
    "c_expirationHours demo_create_text = Some (JNum (Finite 24))"
    by (simp_all add: demo_create_text_def)
  have t: "\<not> falsy (JStr ''ct'')" "\<not> falsy (JStr ''5.2a'')" by simp_all
  have n: "ToNumber W (JStr ''abc'') = Inr NaN" using assms(1) by (simp add: ToNumber_def)
  show ?thesis
    unfolding create_present [OF f t n] using assms(2,3)
    by (simp add: ToNumber_finite js_gt_def)
qed

text \<open>
  A record with such a \<^verbatim>\<open>maxViews\<close> has no view limit: the test
  \<^verbatim>\<open>viewCount >= maxViews\<close> of the retrieval is false for every count, so every
  retrieval returns the envelope and writes the incremented record back.
\<close>

lemma unreadable_maxViews_never_exhausted:
  assumes "text_of entry = Json d" and "ToNumber W (maxViews d) = Inr NaN"
  shows "retrieve_complete W E h (Some entry) kv
     = (Inr (Response 200
          (Retrieved (encryptedData d) (viewCount d + 1) (maxViews d) False (createdAt d))),
        if put_throws E then kv
        else kv(h \<mapsto> \<lparr>text_of = Json (stringify_parse_record (d\<lparr>viewCount := viewCount d + 1\<rparr>)),
                       expirationTtl = None\<rparr>))"
  using complete_passes [OF assms, of E h kv] by (simp add: js_ge_NaN)

text \<open>
  C10. The bounds check of create looks at the numeric range only. A request with its
  fields present, a valid token, any \<^verbatim>\<open>maxViews\<close> in \<open>[1, 100]\<close> and any
  \<^verbatim>\<open>expirationHours\<close> in \<open>[1, 8760]\<close>, whole or fractional, is accepted when the KV
  \<^verbatim>\<open>put\<close> does not throw: the answer is 200 and the record is stored with
  \<^verbatim>\<open>maxViews\<close> exactly as sent (so with \<open>5/2\<close> for a request that says 2.5).
\<close>

theorem create_accepts_fractional_bounds:
  assumes "c_encryptedData data = Some (JStr encrypted)" and "encrypted \<noteq> []"
    and "c_csrfToken data = Some (JStr tok)" and "tok \<noteq> []"
    and "c_maxViews data = Some (JNum (Finite mv))" and "1 \<le> mv" and "mv \<le> 100"
    and "c_expirationHours data = Some (JNum (Finite eh))" and "1 \<le> eh" and "eh \<le> 8760"
    and "validateCSRFToken W (now_validate E) tok secret" and "\<not> put_throws E"
  shows "handleCreateSecret W E secret (Some data) kv
     = (Inr (Response 200
          (Created (generateSecretId (randomBytes E))
             (Finite (of_int (now_expiresAt E) + eh * 3600 * 1000)) (JNum (Finite mv)))),
        kv(hashSecretId W (generateSecretId (randomBytes E)) \<mapsto>
             \<lparr>text_of = Json \<lparr>encryptedData = JStr encrypted, maxViews = JNum (Finite mv),
                               viewCount = 0, createdAt = now_createdAt E\<rparr>,
              expirationTtl = Some (Finite (eh * 3600))\<rparr>))"
proof -
  have t: "\<not> falsy (JStr encrypted)" "\<not> falsy (JStr tok)"
    using assms(2,4) by simp_all
  have n: "ToNumber W (JNum (Finite mv)) = Inr (Finite mv)" by (rule ToNumber_finite)
  show ?thesis
    unfolding create_present [OF assms(1,3,5,8) t n]
    using assms(6,7,9,10,11,12) by (simp add: ToNumber_finite js_gt_def)
qed

lemma five_halves_not_whole: "(5 / 2 :: rat) \<notin> \<int>"
proof
  assume "(5 / 2 :: rat) \<in> \<int>"
  then obtain k :: int where "(5 / 2 :: rat) = of_int k" by (auto elim: Ints_cases)
  then have "(of_int (2 * k) :: rat) = of_int 5" by simp
  then have "2 * k = 5" by (simp only: of_int_eq_iff)
  then show False by presburger
qed

theorem create_accepts_fractional_bounds_witness:
  "(5 / 2 :: rat) \<notin> \<int> \<and> c_maxViews demo_create = Some (JNum (Finite (5 / 2)))
   \<and> c_expirationHours demo_create = Some (JNum (Finite (3 / 2)))
   \<and> validateCSRFToken demo_runtime (now_validate demo_env) ''5.2a'' demo_secret
   \<and> \<not> put_throws demo_env
   \<and> handleCreateSecret demo_runtime demo_env demo_secret (Some demo_create) Map.empty
     = (Inr (Response 200
          (Created (generateSecretId (randomBytes demo_env))
             (Finite (of_int (now_expiresAt demo_env) + 3 / 2 * 3600 * 1000))
             (JNum (Finite (5 / 2))))),
        [hashSecretId demo_runtime (generateSecretId (randomBytes demo_env)) \<mapsto>
             \<lparr>text_of = Json \<lparr>encryptedData = JStr ''ct'', maxViews = JNum (Finite (5 / 2)),
                               viewCount = 0, createdAt = now_createdAt demo_env\<rparr>,
              expirationTtl = Some (Finite (3 / 2 * 3600))\<rparr>])"
proof -
  have f: "c_encryptedData demo_create = Some (JStr ''ct'')" "''ct'' \<noteq> []"
    "c_csrfToken demo_create = Some (JStr ''5.2a'')" "''5.2a'' \<noteq> []"
    "c_maxViews demo_create = Some (JNum (Finite (5 / 2)))" "(1::rat) \<le> 5 / 2"
    "(5 / 2 :: rat) \<le> 100"
    "c_expirationHours demo_create = Some (JNum (Finite (3 / 2)))" "(1::rat) \<le> 3 / 2"
    "(3 / 2 :: rat) \<le> 8760"
    by (simp_all add: demo_create_def)
  have v: "validateCSRFToken demo_runtime (now_validate demo_env) ''5.2a'' demo_secret"
    using demo_token_valid by (simp add: demo_env_def)
  have p: "\<not> put_throws demo_env" by (simp add: demo_env_def)
  from create_accepts_fractional_bounds [OF f v p, of Map.empty] f v p five_halves_not_whole
  show ?thesis by blast
qed

section \<open>Calls in flight at the same time\<close>

lemma run_schedule_append:
  "run_schedule W secret calls (xs @ ys) state
   = run_schedule W secret calls ys (run_schedule W secret calls xs state)"
proof (induction xs arbitrary: state)
  case Nil
  then show ?case by simp
next
  case (Cons i xs)
  obtain stages kv where s: "state = (stages, kv)" by (cases state)
  show ?case unfolding s using Cons.IH
    by (simp add: Let_def split: prod.splits)
qed

lemma run_schedule_single:
  "i < length calls \<Longrightarrow> i < length stages \<Longrightarrow>
   run_schedule W secret calls [i] (stages, kv)
   = (stages[i := fst (advance W secret (calls ! i) (stages ! i) kv)],
      snd (advance W secret (calls ! i) (stages ! i) kv))"
  by (simp add: Let_def split: prod.splits)

lemma run_schedule_skip:
  "\<not> (i < length calls \<and> i < length stages) \<Longrightarrow>
   run_schedule W secret calls (i # sched) (stages, kv)
   = run_schedule W secret calls sched (stages, kv)"
  by auto

lemma run_pair_skip:
  "\<not> (i < length calls \<and> i < length stages) \<Longrightarrow>
   run_schedule W secret calls [i, i] (stages, kv) = (stages, kv)"
  by auto

lemma advance_twice:
  "advance W secret c (fst (advance W secret c Waiting kv)) (snd (advance W secret c Waiting kv))
   = (Finished (fst (handleRetrieveSecret W (fst c) secret (snd c) kv)),
      snd (handleRetrieveSecret W (fst c) secret (snd c) kv))"
  by (cases "retrieve_lookup W (fst c) secret (snd c) kv")
    (simp_all add: advance_def handleRetrieveSecret_def split: prod.splits)

lemma run_pair_waiting:
  assumes "i < length calls" and "i < length stages" and "stages ! i = Waiting"
  shows "run_schedule W secret calls [i, i] (stages, kv)
   = (stages[i := Finished (fst (handleRetrieveSecret W (fst (calls ! i)) secret
                                   (snd (calls ! i)) kv))],
      snd (handleRetrieveSecret W (fst (calls ! i)) secret (snd (calls ! i)) kv))"
proof -
  let ?a = "advance W secret (calls ! i) Waiting kv"
  have "run_schedule W secret calls [i, i] (stages, kv)
      = run_schedule W secret calls [i] (stages[i := fst ?a], snd ?a)"
    using run_schedule_append [of W secret calls "[i]" "[i]" "(stages, kv)"]
      run_schedule_single [OF assms(1,2), of W secret kv] assms(3)
    by simp
  also have "\<dots> = (stages[i := fst ?a, i := fst (advance W secret (calls ! i) (fst ?a) (snd ?a))],
      snd (advance W secret (calls ! i) (fst ?a) (snd ?a)))"
    using run_schedule_single [of i calls "stages[i := fst ?a]" W secret "snd ?a"] assms(1,2)
    by simp
  finally show ?thesis by (simp add: advance_twice)
qed

lemma run_pair_done:
  assumes "stages ! i = Finished r"
  shows "run_schedule W secret calls [i, i] (stages, kv) = (stages, kv)"
proof (cases "i < length calls \<and> i < length stages")
  case True
  have "advance W secret (calls ! i) (Finished r) kv = (Finished r, kv)"
    by (simp add: advance_def)
  moreover from assms have "stages[i := Finished r] = stages"
    by (metis list_update_id)
  ultimately show ?thesis using True assms by (simp add: Let_def)
next
  case False
  then show ?thesis by (rule run_pair_skip)
qed

lemma count_update:
  "i < length xs \<Longrightarrow> \<not> P (xs ! i) \<Longrightarrow>
   length (filter P (xs[i := y])) = length (filter P xs) + (if P y then 1 else 0)"
proof (induction xs arbitrary: i)
  case Nil
  then show ?case by simp
next
  case (Cons x xs)
  then show ?case by (cases i) auto
qed

lemma serial_Cons: "serial (i # order) = [i, i] @ serial order"
  by (simp add: serial_def)

lemma run_pair_invariant:
  assumes calls: "\<forall>c \<in> set calls. against s c \<and> writes_succeed c"
    and settled: "settled stages"
    and run: "run_schedule W secret calls [i, i] (stages, kv) = (stages', kv')"
    and n: "numeric kv (hashSecretId W s)"
  shows "settled stages' \<and> length stages' = length stages
       \<and> length (filter stage_envelope stages') + views_left kv' (hashSecretId W s)
         = length (filter stage_envelope stages) + views_left kv (hashSecretId W s)
       \<and> numeric kv' (hashSecretId W s)"
proof (cases "i < length calls \<and> i < length stages")
  case False
  then have "run_schedule W secret calls [i, i] (stages, kv) = (stages, kv)"
    by (rule run_pair_skip)
  with run settled n show ?thesis by simp
next
  case True
  then have i: "i < length calls" "i < length stages" by simp_all
  then have "stages ! i \<in> set stages" by simp
  with settled consider "stages ! i = Waiting" | r where "stages ! i = Finished r"
    unfolding settled_def by blast
  then show ?thesis
  proof cases
    case 2
    from run_pair_done [OF 2] run settled n show ?thesis by simp
  next
    case 1
    let ?c = "calls ! i"
    obtain r kv1 where h: "handleRetrieveSecret W (fst ?c) secret (snd ?c) kv = (r, kv1)"
      by (cases "handleRetrieveSecret W (fst ?c) secret (snd ?c) kv")
    from run run_pair_waiting [OF i 1, of W secret kv] h
    have st: "stages' = stages[i := Finished r]" and kv: "kv' = kv1" by simp_all
    from calls i have "against s ?c" "writes_succeed ?c" by simp_all
    from handle_step [OF this h n]
    have step: "views_left kv1 (hashSecretId W s) + (if returns_envelope r then 1 else 0)
        = views_left kv (hashSecretId W s)"
      and n1: "numeric kv1 (hashSecretId W s)" by simp_all
    have cnt: "length (filter stage_envelope stages')
        = length (filter stage_envelope stages) + (if returns_envelope r then 1 else 0)"
      unfolding st using count_update [of i stages stage_envelope "Finished r"] i 1 by simp
    have "settled stages'"
      unfolding st settled_def using settled set_update_subset_insert [of stages i "Finished r"]
      by (auto simp: settled_def)
    with step n1 cnt st kv show ?thesis by simp
  qed
qed

lemma serial_invariant:
  assumes calls: "\<forall>c \<in> set calls. against s c \<and> writes_succeed c"
    and settled: "settled stages"
    and run: "run_schedule W secret calls (serial order) (stages, kv) = (stages', kv')"
    and n: "numeric kv (hashSecretId W s)"
  shows "length (filter stage_envelope stages') + views_left kv' (hashSecretId W s)
         = length (filter stage_envelope stages) + views_left kv (hashSecretId W s)"
  using settled run n
proof (induction order arbitrary: stages kv)
  case Nil
  then show ?case by (simp add: serial_def)
next
  case (Cons i order)
  obtain stages1 kv1 where one: "run_schedule W secret calls [i, i] (stages, kv) = (stages1, kv1)"
    by (cases "run_schedule W secret calls [i, i] (stages, kv)")
  from run_pair_invariant [OF calls Cons.prems(1) one Cons.prems(3)]
  have inv: "settled stages1"
    "length (filter stage_envelope stages1) + views_left kv1 (hashSecretId W s)
       = length (filter stage_envelope stages) + views_left kv (hashSecretId W s)"
    "numeric kv1 (hashSecretId W s)"
    by simp_all
  from Cons.prems(2) one
  have "run_schedule W secret calls (serial order) (stages1, kv1) = (stages', kv')"
    by (simp only: serial_Cons run_schedule_append)
  from Cons.IH [OF inv(1) this inv(3)] inv(2) show ?case by simp
qed

lemma complete_stale_envelope:
  assumes "text_of entry = Json d" and "maxViews d = JNum (Finite m)"
    and "viewCount d < m"
  shows "returns_envelope (fst (retrieve_complete W E h (Some entry) kv))"
proof (cases "m \<le> viewCount d + 1")
  case True
  show ?thesis unfolding complete_last_view [OF assms True] by simp
next
  case False
  then have "viewCount d + 1 < m" by simp
  from complete_more_views [OF assms(1,2) this] show ?thesis by simp
qed

lemma update_boundary:
  "k < n \<Longrightarrow> (replicate k a @ replicate (n - k) b)[k := a]
     = replicate (Suc k) a @ replicate (n - Suc k) b"
proof -
  assume "k < n"
  then obtain m where n: "n - k = Suc m" "n - Suc k = m"
    by (cases "n - k") auto
  show ?thesis unfolding n
    by (simp add: list_update_append replicate_append_same)
qed

lemma all_read:
  assumes calls: "\<forall>c \<in> set calls. against s c \<and> reaches_store W secret c"
    and k: "k \<le> length calls"
  shows "run_schedule W secret calls [0..<k] (replicate (length calls) Waiting, kv)
     = (replicate k (Holding (hashSecretId W s) (kv (hashSecretId W s)))
          @ replicate (length calls - k) Waiting, kv)"
  using k
proof (induction k)
  case 0
  then show ?case by simp
next
  case (Suc k)
  let ?H = "Holding (hashSecretId W s) (kv (hashSecretId W s))"
  let ?st = "replicate k ?H @ replicate (length calls - k) Waiting"
  from Suc.prems have k: "k < length calls" by simp
  then have len: "k < length ?st" by simp
  have at: "?st ! k = Waiting" using k by (simp add: nth_append)
  from calls k have "against s (calls ! k)" "reaches_store W secret (calls ! k)" by simp_all
  from reaches_store_lookup [OF this(2,1), of kv]
  have adv: "advance W secret (calls ! k) Waiting kv = (?H, kv)"
    by (simp add: advance_def)
  have "run_schedule W secret calls [0..<Suc k] (replicate (length calls) Waiting, kv)
      = run_schedule W secret calls [k] (?st, kv)"
    using Suc.IH k by (simp add: run_schedule_append)
  also have "\<dots> = (?st[k := ?H], kv)"
    using run_schedule_single [OF k len, of W secret kv] at adv by simp
  also have "?st[k := ?H] = replicate (Suc k) ?H @ replicate (length calls - Suc k) Waiting"
    by (rule update_boundary [OF k])
  finally show ?case .
qed

lemma all_write:
  assumes stale: "text_of entry = Json d" "maxViews d = JNum (Finite m)" "viewCount d < m"
    and k: "k \<le> n" and n: "n = length calls"
  shows "\<exists>fin kv'.
       run_schedule W secret calls [0..<k] (replicate n (Holding h (Some entry)), kv)
         = (fin @ replicate (n - k) (Holding h (Some entry)), kv')
       \<and> length fin = k \<and> (\<forall>st \<in> set fin. stage_envelope st)"
  using k
proof (induction k)
  case 0
  then show ?case by simp
next
  case (Suc k)
  let ?H = "Holding h (Some entry)"
  from Suc obtain fin kv1 where
    ih: "run_schedule W secret calls [0..<k] (replicate n ?H, kv)
           = (fin @ replicate (n - k) ?H, kv1)"
      "length fin = k" "\<forall>st \<in> set fin. stage_envelope st"
    by auto
  let ?st = "fin @ replicate (n - k) ?H"
  from Suc.prems n have k: "k < length calls" "k < n" by simp_all
  then have len: "k < length ?st" using ih(2) by simp
  have at: "?st ! k = ?H" using k ih(2) by (simp add: nth_append)
  let ?r = "retrieve_complete W (fst (calls ! k)) h (Some entry) kv1"
  have adv: "advance W secret (calls ! k) ?H kv1 = (Finished (fst ?r), snd ?r)"
    by (simp add: advance_def split: prod.splits)
  have env: "stage_envelope (Finished (fst ?r))"
    using complete_stale_envelope [OF stale] by simp
  from k(2) obtain m where m: "n - k = Suc m" "n - Suc k = m" by (cases "n - k") auto
  have "run_schedule W secret calls [0..<Suc k] (replicate n ?H, kv)
      = run_schedule W secret calls [k] (?st, kv1)"
    using ih(1) by (simp add: run_schedule_append)
  also have "\<dots> = (?st[k := Finished (fst ?r)], snd ?r)"
    using run_schedule_single [OF k(1) len, of W secret kv1] at adv by simp
  also have "?st[k := Finished (fst ?r)]
      = (fin @ [Finished (fst ?r)]) @ replicate (n - Suc k) ?H"
    unfolding m using ih(2) by (simp add: list_update_append)
  finally have "run_schedule W secret calls [0..<Suc k] (replicate n ?H, kv)
      = ((fin @ [Finished (fst ?r)]) @ replicate (n - Suc k) ?H, snd ?r)" .
  moreover have "length (fin @ [Finished (fst ?r)]) = Suc k" using ih(2) by simp
  moreover have "\<forall>st \<in> set (fin @ [Finished (fst ?r)]). stage_envelope st"
    using ih(3) env by simp
  ultimately show ?case by blast
qed

lemma reads_first_all_succeed:
  assumes calls: "\<forall>c \<in> set calls. against s c \<and> reaches_store W secret c"
    and stored: "kv (hashSecretId W s) = Some entry" "text_of entry = Json d"
    and fresh: "maxViews d = JNum (Finite m)" "viewCount d < m"
  shows "concurrent_envelopes W secret calls (reads_first (length calls)) kv = length calls"
proof -
  let ?n = "length calls"
  let ?h = "hashSecretId W s"
  have one: "run_schedule W secret calls [0..<?n] (replicate ?n Waiting, kv)
      = (replicate ?n (Holding ?h (Some entry)), kv)"
    using all_read [OF calls, of ?n kv] stored(1) by simp
  from all_write [OF stored(2) fresh, of ?n ?n calls W secret ?h kv]
  obtain fin kv' where two:
    "run_schedule W secret calls [0..<?n] (replicate ?n (Holding ?h (Some entry)), kv)
       = (fin, kv')"
    "length fin = ?n" "\<forall>st \<in> set fin. stage_envelope st"
    by auto
  have "run_schedule W secret calls (reads_first ?n) (replicate ?n Waiting, kv) = (fin, kv')"
    by (simp add: reads_first_def run_schedule_append one two(1))
  moreover have "filter stage_envelope fin = fin" using two(3) by simp
  ultimately show ?thesis by (simp add: concurrent_envelopes_def two(2))
qed

text \<open>
  C2 (as amended). The handler reads \<^verbatim>\<open>viewCount\<close>, and later writes it, with
  nothing that ties the write to the read: no conditional update and no lock. N calls in
  flight against the same external id return the envelope at most \<^verbatim>\<open>maxViews\<close>
  times when their store accesses do not interleave (every call does its write before the
  next call does its read), the KV writes take effect, \<^verbatim>\<open>maxViews\<close> is a whole
  number and \<^verbatim>\<open>viewCount\<close> is not negative. Without the first condition there is no
  bound: when all N calls read a record that still has a view left before any of them
  writes, all N return the envelope.
\<close>

theorem view_limit_concurrent:
  assumes calls: "\<forall>c \<in> set calls. against s c"
    and stored: "kv (hashSecretId W s) = Some entry" "text_of entry = Json d"
    and number: "maxViews d = JNum (Finite m)"
    and whole: "m \<in> \<nat>" and nonneg: "0 \<le> viewCount d"
  shows "((\<forall>c \<in> set calls. writes_succeed c)
          \<longrightarrow> of_nat (concurrent_envelopes W secret calls (serial order) kv) \<le> m)
       \<and> ((\<forall>c \<in> set calls. reaches_store W secret c) \<and> viewCount d < m
          \<longrightarrow> concurrent_envelopes W secret calls (reads_first (length calls)) kv
              = length calls)"
proof (intro conjI impI)
  assume w: "\<forall>c \<in> set calls. writes_succeed c"
  let ?h = "hashSecretId W s"
  let ?init = "replicate (length calls) Waiting"
  from whole obtain M :: nat where M: "m = of_nat M" by (auto elim: Nats_cases)
  have vl: "views_left kv ?h = nat \<lceil>m - viewCount d\<rceil>"
    using stored number by (simp add: views_left_def)
  have p: "numeric kv ?h" using stored number by (simp add: numeric_def)
  have "\<lceil>m - viewCount d\<rceil> \<le> \<lceil>m\<rceil>"
    using nonneg by (intro ceiling_mono) simp
  then have bound: "views_left kv ?h \<le> M"
    unfolding vl M by simp
  obtain stages' kv' where
    run: "run_schedule W secret calls (serial order) (?init, kv) = (stages', kv')"
    by (cases "run_schedule W secret calls (serial order) (?init, kv)")
  have "settled ?init" by (simp add: settled_def)
  moreover from calls w have "\<forall>c \<in> set calls. against s c \<and> writes_succeed c" by simp
  ultimately have "length (filter stage_envelope stages') + views_left kv' ?h
      = length (filter stage_envelope ?init) + views_left kv ?h"
    using run p by (intro serial_invariant)
  moreover have "filter stage_envelope ?init = []" by (induction "length calls") simp_all
  ultimately have "concurrent_envelopes W secret calls (serial order) kv \<le> M"
    using bound by (simp add: concurrent_envelopes_def run)
  then show "of_nat (concurrent_envelopes W secret calls (serial order) kv) \<le> m"
    unfolding M by simp
next
  assume "(\<forall>c \<in> set calls. reaches_store W secret c) \<and> viewCount d < m"
  with calls have "\<forall>c \<in> set calls. against s c \<and> reaches_store W secret c"
    and "viewCount d < m" by simp_all
  from reads_first_all_succeed [where kv = kv, OF this(1) stored number this(2)]
  show "concurrent_envelopes W secret calls (reads_first (length calls)) kv = length calls" .
qed


text \<open>
  Two calls in flight on a record with \<^verbatim>\<open>maxViews = 1\<close>, scheduled read, read,
  write, write, with no KV operation throwing: both return the envelope.
\<close>

theorem view_limit_concurrent_counterexample:
  "\<not> of_nat (concurrent_envelopes demo_runtime demo_secret [demo_call, demo_call]
         [0, 1, 0, 1] demo_kv) \<le> (1::rat)
   \<and> maxViews demo_record = JNum (Finite 1)"
proof -
  let ?entry = "\<lparr>text_of = Json demo_record, expirationTtl = Some (Finite 3600)\<rparr>"
  have c: "against ''id'' demo_call" "reaches_store demo_runtime demo_secret demo_call"
    by (rule demo_against, rule demo_reaches_store)
  then have calls: "\<forall>c \<in> set [demo_call, demo_call].
      against ''id'' c \<and> reaches_store demo_runtime demo_secret c" by simp
  have stored: "demo_kv (hashSecretId demo_runtime ''id'') = Some ?entry"
    "text_of ?entry = Json demo_record"
    by (simp_all add: demo_kv_def)
  have fresh: "maxViews demo_record = JNum (Finite 1)" "viewCount demo_record < 1"
    by (simp_all add: demo_record_def)
  have sched: "reads_first (length [demo_call, demo_call]) = [0, 1, 0, 1]"
    by (simp add: reads_first_def upt_rec)
  from reads_first_all_succeed [where kv = demo_kv and entry = ?entry
      and secret = demo_secret, OF calls stored fresh]
  have "concurrent_envelopes demo_runtime demo_secret [demo_call, demo_call]
         [0, 1, 0, 1] demo_kv = 2"
    unfolding sched by simp
  then show ?thesis by (simp add: demo_record_def)
qed

theorem view_limit_concurrent_witness:
  "against ''id'' demo_call \<and> writes_succeed demo_call
   \<and> reaches_store demo_runtime demo_secret demo_call
   \<and> maxViews demo_record = JNum (Finite 1) \<and> (1::rat) \<in> \<nat>
   \<and> 0 \<le> viewCount demo_record \<and> viewCount demo_record < 1
   \<and> of_nat (concurrent_envelopes demo_runtime demo_secret [demo_call, demo_call]
         (serial [0, 1]) demo_kv) \<le> (1::rat)
   \<and> concurrent_envelopes demo_runtime demo_secret [demo_call, demo_call]
         (reads_first (length [demo_call, demo_call])) demo_kv
       = length [demo_call, demo_call]"
proof -
  let ?entry = "\<lparr>text_of = Json demo_record, expirationTtl = Some (Finite 3600)\<rparr>"
  have c: "against ''id'' demo_call" "writes_succeed demo_call"
    "reaches_store demo_runtime demo_secret demo_call"
    by (rule demo_against, rule demo_writes_succeed, rule demo_reaches_store)
  have stored: "demo_kv (hashSecretId demo_runtime ''id'') = Some ?entry"
    "text_of ?entry = Json demo_record"
    by (simp_all add: demo_kv_def)
  have r: "maxViews demo_record = JNum (Finite 1)" "(1::rat) \<in> \<nat>"
    "0 \<le> viewCount demo_record" "viewCount demo_record < 1"
    by (simp_all add: demo_record_def)
  have calls: "\<forall>c \<in> set [demo_call, demo_call]. against ''id'' c" using c(1) by simp
  note t = view_limit_concurrent [where calls = "[demo_call, demo_call]" and s = "''id''"
      and kv = demo_kv and W = demo_runtime and entry = ?entry and d = demo_record
      and secret = demo_secret and order = "[0, 1]" and m = 1, OF calls stored r(1,2,3)]
  from t c(2) have "of_nat (concurrent_envelopes demo_runtime demo_secret
         [demo_call, demo_call] (serial [0, 1]) demo_kv) \<le> (1::rat)"
    by simp
  moreover from t c(3) r(4)
  have "concurrent_envelopes demo_runtime demo_secret [demo_call, demo_call]
         (reads_first (length [demo_call, demo_call])) demo_kv
       = length [demo_call, demo_call]"
    by simp
  ultimately show ?thesis using c r by blast
qed


section \<open>Anti-forgery tokens\<close>

lemma split_on_none: "sep \<notin> set b \<Longrightarrow> split_on sep b = [b]"
  by (induction b) auto

lemma split_on_two:
  "sep \<notin> set a \<Longrightarrow> sep \<notin> set b \<Longrightarrow> split_on sep (a @ sep # b) = [a, b]"
  by (induction a) (auto simp: split_on_none)

lemma digit_char_hex: "n < 16 \<Longrightarrow> digit_char n \<in> set hex_chars"
  unfolding digit_char_def by (rule nth_mem) (simp add: hex_chars_def)

lemma toString16_hex: "set (toString16 b) \<subseteq> set hex_chars"
proof -
  have "unat b < 256" using unsigned_less [of b] by simp
  then have "unat b div 16 < 16" by arith
  moreover have "unat b mod 16 < 16" by simp
  ultimately show ?thesis
    using digit_char_hex [of "unat b"] digit_char_hex [of "unat b div 16"]
      digit_char_hex [of "unat b mod 16"]
    by (simp add: toString16_def Let_def)
qed

lemma padStart_set: "set (padStart n c s) \<subseteq> insert c (set s)"
  by (auto simp: padStart_def)

lemma zero_hex: "CHR ''0'' \<in> set hex_chars"
  by (simp add: hex_chars_def)

lemma signatureHex_hex: "set (signatureHex sig) \<subseteq> set hex_chars"
proof -
  have "set (padStart 2 CHR ''0'' (toString16 b)) \<subseteq> set hex_chars" for b
    using padStart_set [of 2 "CHR ''0''" "toString16 b"] toString16_hex [of b] zero_hex
    by blast
  then show ?thesis unfolding signatureHex_def by auto
qed

lemma dot_not_hex: "CHR ''.'' \<notin> set hex_chars"
  by (simp add: hex_chars_def)

lemma signatureHex_no_dot: "CHR ''.'' \<notin> set (signatureHex sig)"
  using signatureHex_hex [of sig] dot_not_hex by blast

lemma signatureHex_nonempty: "sig \<noteq> [] \<Longrightarrow> signatureHex sig \<noteq> []"
  by (cases sig) (auto simp: signatureHex_def padStart_def toString16_def Let_def)

lemma parseInt_letter: "parseInt ''x'' = None"
  by (simp add: parseInt_def is_ws_def radix_digit_def digit_value_def)

text \<open>
  C4 (where the code departs from it). A token whose first part has no digits for
  \<^verbatim>\<open>parseInt\<close> to read has the age \<^verbatim>\<open>NaN\<close>; both comparisons of the age test
  are false on \<^verbatim>\<open>NaN\<close>, so the test lets the token through. With the signature of
  that first part the token validates at every time: it is accepted although it has no
  issue time and no age within the 30-minute window.
\<close>

theorem validate_accepts_unparsable_timestamp:
  assumes "sign W (utf8 W secret) (utf8 W ''x'') \<noteq> []"
  shows "parseInt ''x'' = None
       \<and> validateCSRFToken W now
           (''x.'' @ signatureHex (sign W (utf8 W secret) (utf8 W ''x''))) secret"
proof -
  let ?hex = "signatureHex (sign W (utf8 W secret) (utf8 W ''x''))"
  have "split_on CHR ''.'' (''x'' @ CHR ''.'' # ?hex) = [''x'', ?hex]"
    by (rule split_on_two) (simp_all add: signatureHex_no_dot)
  then have parts: "split_on CHR ''.'' (''x.'' @ ?hex) = [''x'', ?hex]" by simp
  have ne: "?hex \<noteq> []" using assms by (rule signatureHex_nonempty)
  show ?thesis
    unfolding validateCSRFToken_def Let_def parts
    using ne by (simp add: parseInt_letter num_gt_def num_lt_def)
qed

theorem validate_accepts_unparsable_timestamp_witness:
  "sign demo_runtime (utf8 demo_runtime demo_secret) (utf8 demo_runtime ''x'') \<noteq> []
   \<and> parseInt ''x'' = None
   \<and> validateCSRFToken demo_runtime 4102444800000 ''x.2a'' demo_secret"
proof -
  have h: "sign demo_runtime (utf8 demo_runtime demo_secret) (utf8 demo_runtime ''x'') \<noteq> []"
    by (simp add: demo_runtime_def)
  have "signatureHex (sign demo_runtime (utf8 demo_runtime demo_secret)
      (utf8 demo_runtime ''x'')) = ''2a''"
    by (simp add: demo_runtime_def signatureHex_def padStart_def toString16_def digit_char_def
        hex_chars_def)
  with validate_accepts_unparsable_timestamp [OF h, of 4102444800000] h
  show ?thesis by simp
qed


text \<open>
  For tokens whose first part is a decimal numeral, as every token that
  \<^verbatim>\<open>generateCSRFToken\<close> issues, validation is the conjunction the specification
  describes: a non-empty signature part equal to the recomputed hex signature of the first
  part, and an age from 0 to 30 minutes, both ends included.
\<close>

lemma split_on_first:
  "sep \<notin> set a \<Longrightarrow> split_on sep (a @ sep # b) = a # split_on sep b"
  by (induction a) (auto split: list.splits)

lemma length_split_on:
  "length (split_on sep b) = Suc (length (filter (\<lambda>c. c = sep) b))"
  by (induction b) (auto split: list.splits)

lemma split_on_single: "length (split_on sep b) = 1 \<Longrightarrow> split_on sep b = [b]"
proof -
  assume "length (split_on sep b) = 1"
  then have "filter (\<lambda>c. c = sep) b = []" by (simp add: length_split_on)
  then have "sep \<notin> set b" by (auto simp: filter_empty_conv)
  then show ?thesis by (rule split_on_none)
qed

lemma decimal_digit_chars: "\<forall>k \<in> set [0..<10]. digit_char k \<in> set ''0123456789''"
  by code_simp

lemma decimal_digit_values: "\<forall>k \<in> set [0..<10]. digit_value (digit_char k) = Some k"
  by code_simp

lemma decimal_plain:
  "\<forall>c \<in> set ''0123456789''. \<not> is_ws c \<and> c \<noteq> CHR ''+'' \<and> c \<noteq> CHR ''-''
      \<and> c \<noteq> CHR ''x'' \<and> c \<noteq> CHR ''X'' \<and> c \<noteq> CHR ''.'' \<and> radix_digit 10 c"
  by (simp add: is_ws_def radix_digit_def digit_value_def)

lemma digits_decimal: "set (digits n) \<subseteq> set ''0123456789''"
proof (induction n rule: digits.induct)
  case (1 n)
  have d: "k < 10 \<Longrightarrow> digit_char k \<in> set ''0123456789''" for k
    using decimal_digit_chars by simp
  show ?case
  proof (cases "n < 10")
    case True
    then show ?thesis using d [of n] by (simp add: digits.simps [of n])
  next
    case False
    with 1 d [of "n mod 10"] show ?thesis by (simp add: digits.simps [of n])
  qed
qed

lemma digits_nonempty: "digits n \<noteq> []"
  by (simp add: digits.simps [of n])

lemma radix_value_snoc:
  "radix_value R (xs @ [c])
   = radix_value R xs * R + (case digit_value c of None \<Rightarrow> 0 | Some d \<Rightarrow> d)"
  by (simp add: radix_value_def)

lemma radix_value_digits: "radix_value 10 (digits n) = n"
proof (induction n rule: digits.induct)
  case (1 n)
  have v: "k < 10 \<Longrightarrow> digit_value (digit_char k) = Some k" for k
    using decimal_digit_values by simp
  show ?case
  proof (cases "n < 10")
    case True
    then show ?thesis by (simp add: digits.simps [of n] radix_value_def v)
  next
    case False
    with 1 have "radix_value 10 (digits (n div 10)) = n div 10" by simp
    with False show ?thesis
      by (simp add: digits.simps [of n] radix_value_snoc v)
  qed
qed

lemma parseInt_digits: "parseInt (digits n) = Some (int n)"
proof -
  obtain c cs where cs: "digits n = c # cs"
    using digits_nonempty [of n] by (cases "digits n") auto
  have plain: "\<forall>c \<in> set (digits n). \<not> is_ws c \<and> c \<noteq> CHR ''+'' \<and> c \<noteq> CHR ''-''
      \<and> c \<noteq> CHR ''x'' \<and> c \<noteq> CHR ''X'' \<and> radix_digit 10 c"
    using digits_decimal [of n] decimal_plain by blast
  then have c: "\<not> is_ws c" "c \<noteq> CHR ''+''" "c \<noteq> CHR ''-''"
    by (simp_all add: cs)
  then have hd: "hd (digits n) \<noteq> CHR ''+''" "hd (digits n) \<noteq> CHR ''-''"
    by (simp_all add: cs)
  have drop: "dropWhile is_ws (digits n) = digits n"
    using c(1) by (simp add: cs)
  have "set (take 2 (digits n)) \<subseteq> set (digits n)" by (rule set_take_subset)
  with plain have "CHR ''x'' \<notin> set (take 2 (digits n))" "CHR ''X'' \<notin> set (take 2 (digits n))"
    by blast+
  then have nohex: "take 2 (digits n) \<noteq> ''0x''" "take 2 (digits n) \<noteq> ''0X''"
    by auto
  have all: "takeWhile (radix_digit 10) (digits n) = digits n"
    using plain by (simp add: takeWhile_eq_all_conv)
  have "parseInt (digits n) = Some (1 * int (radix_value 10 (digits n)))"
    unfolding parseInt_def Let_def drop
    using hd nohex digits_nonempty [of n] by (simp add: all)
  then show ?thesis by (simp add: radix_value_digits)
qed

lemma digits_no_dot: "CHR ''.'' \<notin> set (digits n)"
  using digits_decimal [of n] decimal_plain by blast

lemma decimal_token_iff:
  "validateCSRFToken W now (digits n @ ''.'' @ sig) secret
   \<longleftrightarrow> sig \<noteq> []
       \<and> sig = signatureHex (sign W (utf8 W secret) (utf8 W (digits n)))
       \<and> 0 \<le> now - int n \<and> now - int n \<le> 30 * 60 * 1000"
proof -
  let ?hex = "signatureHex (sign W (utf8 W secret) (utf8 W (digits n)))"
  have parts: "split_on CHR ''.'' (digits n @ ''.'' @ sig) = digits n # split_on CHR ''.'' sig"
    using split_on_first [OF digits_no_dot, of n sig] by simp
  show ?thesis
  proof (cases "length (split_on CHR ''.'' sig) = 1")
    case True
    then have s: "split_on CHR ''.'' sig = [sig]" by (rule split_on_single)
    show ?thesis
      unfolding validateCSRFToken_def Let_def parts s
      by (auto simp: parseInt_digits num_gt_def num_lt_def digits_nonempty)
  next
    case False
    then have "CHR ''.'' \<in> set sig"
      by (auto simp: length_split_on filter_empty_conv)
    then have "sig \<noteq> ?hex" using signatureHex_no_dot by metis
    moreover have "\<not> validateCSRFToken W now (digits n @ ''.'' @ sig) secret"
      unfolding validateCSRFToken_def Let_def parts using False by simp
    ultimately show ?thesis by simp
  qed
qed

lemma issued_token_window:
  assumes "0 \<le> issuedAt"
    and "sign W (utf8 W secret) (utf8 W (number_toString issuedAt)) \<noteq> []"
  shows "validateCSRFToken W now (generateCSRFToken W issuedAt secret) secret
         \<longleftrightarrow> 0 \<le> now - issuedAt \<and> now - issuedAt \<le> 30 * 60 * 1000"
proof -
  from assms(1) have ts: "number_toString issuedAt = digits (nat issuedAt)"
    by (simp add: number_toString_def)
  have "signatureHex (sign W (utf8 W secret) (utf8 W (digits (nat issuedAt)))) \<noteq> []"
    using assms(2) unfolding ts by (rule signatureHex_nonempty)
  then show ?thesis
    using assms(1) decimal_token_iff [of W now "nat issuedAt"
        "signatureHex (sign W (utf8 W secret) (utf8 W (digits (nat issuedAt))))" secret]
    by (simp add: generateCSRFToken_def Let_def ts)
qed

lemma issued_token_examples:
  assumes "0 \<le> issuedAt"
    and "sign W (utf8 W secret) (utf8 W (number_toString issuedAt)) \<noteq> []"
  shows "validateCSRFToken W (issuedAt + 1799000) (generateCSRFToken W issuedAt secret) secret"
    and "\<not> validateCSRFToken W (issuedAt + 1801000) (generateCSRFToken W issuedAt secret) secret"
    and "now < issuedAt
         \<Longrightarrow> \<not> validateCSRFToken W now (generateCSRFToken W issuedAt secret) secret"
  by (simp_all add: issued_token_window [OF assms])


end
